theory Spec2Isabelle
  imports Main "HOL-Library.AList"
begin

section \<open>Strings and regular expressions of the host language\<close>

text \<open>
  The resolver (\<^verbatim>\<open>services/url-resolver.ts\<close>) is written with regular-expression
  literals and the string methods \<^verbatim>\<open>includes\<close>, \<^verbatim>\<open>match\<close> and \<^verbatim>\<open>replace\<close>.
  A string is a list of characters; a \<open>char\<close> stands for one code unit.  Every pattern of
  the source is written over ASCII characters.
\<close>

text \<open>\<^verbatim>\<open>s.includes(sub)\<close>: \<open>sub\<close> occurs in \<open>s\<close> at some index.\<close>

fun starts_with :: "string \<Rightarrow> string \<Rightarrow> bool" where
  "starts_with s [] = True"
| "starts_with [] (c # sub) = False"
| "starts_with (x # s) (c # sub) = (x = c \<and> starts_with s sub)"

fun str_includes :: "string \<Rightarrow> string \<Rightarrow> bool" where
  "str_includes [] sub = starts_with [] sub"
| "str_includes (x # s) sub = (starts_with (x # s) sub \<or> str_includes s sub)"

text \<open>
  The fragment of the pattern language that the source uses: literal characters, the dot,
  character classes given by ranges (plain and negated), sequence, alternation, numbered
  capture groups, the quantifiers \<^verbatim>\<open>+\<close> (greedy), \<^verbatim>\<open>+?\<close> (lazy) and \<^verbatim>\<open>?\<close>, and the
  end-of-input assertion \<^verbatim>\<open>$\<close>.
\<close>

datatype regex =
    Lit char
  | Dot
  | Cls "(char \<times> char) list"
  | NCls "(char \<times> char) list"
  | Eps
  | Eoi
  | Seq regex regex
  | Alt regex regex
  | Grp nat regex
  | Plus regex
  | PlusLazy regex
  | Opt regex

definition lits :: "string \<Rightarrow> regex" where
  "lits s = foldr (\<lambda>c r. Seq (Lit c) r) s Eps"

definition seqs :: "regex list \<Rightarrow> regex" where
  "seqs rs = foldr Seq rs Eps"

text \<open>
  Case-insensitive matching (flag \<^verbatim>\<open>i\<close>) compares characters after canonicalisation, which
  maps a character to its upper-case form.  A character outside ASCII never canonicalises
  to an ASCII character, so against the ASCII patterns of the source only the letters
  \<^verbatim>\<open>a\<close> to \<^verbatim>\<open>z\<close> are affected.
\<close>

definition code_unit :: "char \<Rightarrow> nat" where
  "code_unit c = of_char c"

definition to_upper :: "char \<Rightarrow> char" where
  "to_upper c = (if 97 \<le> code_unit c \<and> code_unit c \<le> 122 then char_of (code_unit c - 32) else c)"

definition to_lower :: "char \<Rightarrow> char" where
  "to_lower c = (if 65 \<le> code_unit c \<and> code_unit c \<le> 90 then char_of (code_unit c + 32) else c)"

definition canon :: "bool \<Rightarrow> char \<Rightarrow> char" where
  "canon ic c = (if ic then to_upper c else c)"

definition in_ranges :: "(char \<times> char) list \<Rightarrow> char \<Rightarrow> bool" where
  "in_ranges rs c = list_ex (\<lambda>(lo, hi). code_unit lo \<le> code_unit c \<and> code_unit c \<le> code_unit hi) rs"

text \<open>
  A class matches a character when one of its members has the same canonical form; for an
  ASCII class under flag \<^verbatim>\<open>i\<close> these members are the character itself and its other-case
  form.
\<close>

definition cls_match :: "bool \<Rightarrow> (char \<times> char) list \<Rightarrow> char \<Rightarrow> bool" where
  "cls_match ic rs c = (in_ranges rs c \<or> (ic \<and> (in_ranges rs (to_upper c) \<or> in_ranges rs (to_lower c))))"

text \<open>The dot matches every character except a line terminator.\<close>

definition line_terminator :: "char \<Rightarrow> bool" where
  "line_terminator c = (code_unit c = 10 \<or> code_unit c = 13)"

text \<open>
  A matcher state is the input not yet consumed together with the captures made so far.
  \<open>ms ic r st\<close> lists the states in which a match of \<open>r\<close> begun in \<open>st\<close> can end, in the
  order in which a backtracking matcher tries them: the engine's choice is the first
  state of the list that lets the rest of the pattern succeed.  An iteration of a
  quantifier past its minimum that consumes nothing is rejected, as the language
  prescribes; \<open>star\<close> is given the length of the remaining input as its bound, which such
  iterations can never exhaust.
\<close>

type_synonym captures = "nat \<Rightarrow> string option"
type_synonym mstate = "string \<times> captures"

definition one_char :: "(char \<Rightarrow> bool) \<Rightarrow> mstate \<Rightarrow> mstate list" where
  "one_char P st = (case fst st of [] \<Rightarrow> [] | x # xs \<Rightarrow> if P x then [(xs, snd st)] else [])"

definition progress :: "mstate \<Rightarrow> mstate \<Rightarrow> bool" where
  "progress st st' = (length (fst st') < length (fst st))"

primrec star :: "bool \<Rightarrow> (mstate \<Rightarrow> mstate list) \<Rightarrow> nat \<Rightarrow> mstate \<Rightarrow> mstate list" where
  "star greedy f 0 st = [st]"
| "star greedy f (Suc n) st =
     (let more = concat (map (star greedy f n) (filter (progress st) (f st)))
      in if greedy then more @ [st] else st # more)"

primrec ms :: "bool \<Rightarrow> regex \<Rightarrow> mstate \<Rightarrow> mstate list" where
  "ms ic (Lit c) = one_char (\<lambda>x. canon ic x = canon ic c)"
| "ms ic Dot = one_char (\<lambda>x. \<not> line_terminator x)"
| "ms ic (Cls rs) = one_char (cls_match ic rs)"
| "ms ic (NCls rs) = one_char (\<lambda>x. \<not> cls_match ic rs x)"
| "ms ic Eps = (\<lambda>st. [st])"
| "ms ic Eoi = (\<lambda>st. if fst st = [] then [st] else [])"
| "ms ic (Seq a b) = (\<lambda>st. concat (map (ms ic b) (ms ic a st)))"
| "ms ic (Alt a b) = (\<lambda>st. ms ic a st @ ms ic b st)"
| "ms ic (Grp n a) =
     (\<lambda>st. map (\<lambda>st'. (fst st', (snd st')(n \<mapsto> take (length (fst st) - length (fst st')) (fst st))))
              (ms ic a st))"
| "ms ic (Plus a) = (\<lambda>st. concat (map (star True (ms ic a) (length (fst st))) (ms ic a st)))"
| "ms ic (PlusLazy a) = (\<lambda>st. concat (map (star False (ms ic a) (length (fst st))) (ms ic a st)))"
| "ms ic (Opt a) = (\<lambda>st. filter (progress st) (ms ic a st) @ [st])"

text \<open>
  A match result: the text before the match, the matched text, the captures and the text
  after the match.  \<open>match_at\<close> is a match attempt at one start index, \<open>pre\<close> being the
  text before it; \<open>search\<close> is the unanchored search of \<^verbatim>\<open>exec\<close>: the leftmost start
  index at which the pattern matches, and there the first way the matcher finds.
\<close>

record match_result =
  before_match :: string
  matched :: string
  groups :: captures
  after_match :: string

definition match_at :: "bool \<Rightarrow> regex \<Rightarrow> string \<Rightarrow> string \<Rightarrow> match_result option" where
  "match_at ic r pre s =
     (case ms ic r (s, Map.empty) of
        [] \<Rightarrow> None
      | st # _ \<Rightarrow> Some \<lparr>before_match = pre, matched = take (length s - length (fst st)) s,
                        groups = snd st, after_match = fst st\<rparr>)"

fun search :: "bool \<Rightarrow> regex \<Rightarrow> string \<Rightarrow> string \<Rightarrow> match_result option" where
  "search ic r pre [] = match_at ic r pre []"
| "search ic r pre (x # xs) =
     (case match_at ic r pre (x # xs) of
        Some m \<Rightarrow> Some m
      | None \<Rightarrow> search ic r (pre @ [x]) xs)"

text \<open>\<^verbatim>\<open>s.match(re)\<close> for a pattern without flag \<^verbatim>\<open>g\<close>.\<close>

definition str_match :: "bool \<Rightarrow> regex \<Rightarrow> string \<Rightarrow> match_result option" where
  "str_match ic r s = search ic r [] s"

text \<open>\<open>m[n]\<close> of a match; a group that took no part in the match reads as empty here.\<close>

definition group :: "match_result \<Rightarrow> nat \<Rightarrow> string" where
  "group m n = (case groups m n of Some g \<Rightarrow> g | None \<Rightarrow> [])"

text \<open>A replacement string: literal text and group references \<^verbatim>\<open>$n\<close>.\<close>

datatype repl_piece = RText string | RGroup nat

fun expand :: "repl_piece list \<Rightarrow> match_result \<Rightarrow> string" where
  "expand [] m = []"
| "expand (RText t # ps) m = t @ expand ps m"
| "expand (RGroup n # ps) m = group m n @ expand ps m"

text \<open>\<^verbatim>\<open>s.replace(re, repl)\<close> without flag \<^verbatim>\<open>g\<close>: the first match only.\<close>

definition replace_first :: "bool \<Rightarrow> regex \<Rightarrow> repl_piece list \<Rightarrow> string \<Rightarrow> string" where
  "replace_first ic r repl s =
     (case search ic r [] s of
        None \<Rightarrow> s
      | Some m \<Rightarrow> before_match m @ expand repl m @ after_match m)"

text \<open>
  \<^verbatim>\<open>s.replace(re, repl)\<close> with flag \<^verbatim>\<open>g\<close>: every match, left to right, each search
  resuming where the previous match ended (one character further after an empty match).
  The patterns of this fragment do not look behind the start of a match, so the search
  resumes on the remaining text alone.  The bound is the length of the text.
\<close>

fun replace_loop :: "nat \<Rightarrow> bool \<Rightarrow> regex \<Rightarrow> repl_piece list \<Rightarrow> string \<Rightarrow> string" where
  "replace_loop 0 ic r repl s = s"
| "replace_loop (Suc n) ic r repl s =
     (case search ic r [] s of
        None \<Rightarrow> s
      | Some m \<Rightarrow>
          before_match m @ expand repl m @
          (if matched m = []
           then (case after_match m of [] \<Rightarrow> [] | x # xs \<Rightarrow> x # replace_loop n ic r repl xs)
           else replace_loop n ic r repl (after_match m)))"

definition replace_all :: "bool \<Rightarrow> regex \<Rightarrow> repl_piece list \<Rightarrow> string \<Rightarrow> string" where
  "replace_all ic r repl s = replace_loop (Suc (length s)) ic r repl s"

section \<open>The URL resolver\<close>

datatype confidence_level = High | Medium | Low

record ResolvedURL =
  urlPath :: string
  confidence :: confidence_level
  reasoning :: string

text \<open>The patterns of the source, one constant for each literal.\<close>

definition ext_ts_js :: regex where
  \<comment> \<open>\<^verbatim>\<open>(tsx?|jsx?)\<close>\<close>
  "ext_ts_js = Alt (Seq (lits ''ts'') (Opt (Lit CHR ''x''))) (Seq (lits ''js'') (Opt (Lit CHR ''x'')))"

definition app_router_re :: regex where
  \<comment> \<open>\<^verbatim>\<open>/\/app\/(.+?)\/(page|layout|route)\.(tsx?|jsx?)$/\<close>\<close>
  "app_router_re =
     seqs [lits ''/app/'', Grp 1 (PlusLazy Dot), Lit CHR ''/'',
           Grp 2 (Alt (lits ''page'') (Alt (lits ''layout'') (lits ''route''))),
           Lit CHR ''.'', Grp 3 ext_ts_js, Eoi]"

definition pages_router_re :: regex where
  \<comment> \<open>\<^verbatim>\<open>/\/pages\/(.+?)\.(tsx?|jsx?)$/\<close>\<close>
  "pages_router_re =
     seqs [lits ''/pages/'', Grp 1 (PlusLazy Dot), Lit CHR ''.'', Grp 2 ext_ts_js, Eoi]"

definition astro_re :: regex where
  \<comment> \<open>\<^verbatim>\<open>/\/src\/pages\/(.+?)\.astro$/\<close>\<close>
  "astro_re = seqs [lits ''/src/pages/'', Grp 1 (PlusLazy Dot), lits ''.astro'', Eoi]"

definition remix_re :: regex where
  \<comment> \<open>\<^verbatim>\<open>/\/routes\/(.+?)\.(tsx?|jsx?)$/\<close>\<close>
  "remix_re =
     seqs [lits ''/routes/'', Grp 1 (PlusLazy Dot), Lit CHR ''.'', Grp 2 ext_ts_js, Eoi]"

definition generic_re :: regex where
  \<comment> \<open>\<^verbatim>\<open>/\/([a-z0-9\-_\/]+)\.(html?|php|md)$/i\<close>\<close>
  "generic_re =
     seqs [Lit CHR ''/'',
           Grp 1 (Plus (Cls [(CHR ''a'', CHR ''z''), (CHR ''0'', CHR ''9''), (CHR ''-'', CHR ''-''),
                             (CHR ''_'', CHR ''_''), (CHR ''/'', CHR ''/'')])),
           Lit CHR ''.'',
           Grp 2 (Alt (Seq (lits ''htm'') (Opt (Lit CHR ''l''))) (Alt (lits ''php'') (lits ''md''))),
           Eoi]"

definition dynamic_segment_re :: regex where
  \<comment> \<open>\<^verbatim>\<open>/\[([^\]]+)\]/g\<close>\<close>
  "dynamic_segment_re =
     seqs [Lit CHR ''['', Grp 1 (Plus (NCls [(CHR '']'', CHR '']'')])), Lit CHR '']'']"

definition catch_all_re :: regex where
  \<comment> \<open>\<^verbatim>\<open>/\[\.\.\.([^\]]+)\]/g\<close>\<close>
  "catch_all_re =
     seqs [Lit CHR ''['', lits ''...'', Grp 1 (Plus (NCls [(CHR '']'', CHR '']'')])), Lit CHR '']'']"

definition index_re :: regex where
  \<comment> \<open>\<^verbatim>\<open>/\/index$/\<close>\<close>
  "index_re = seqs [lits ''/index'', Eoi]"

text \<open>
  The three replacements that the Next.js and Astro branches apply to the first capture
  group, in the order of the source: the dynamic-segment rule, then the catch-all rule,
  then the removal of a trailing \<^verbatim>\<open>/index\<close>.
\<close>

definition bracket_transform :: "string \<Rightarrow> string" where
  "bracket_transform seg =
     replace_first False index_re []
       (replace_all False catch_all_re [RText ''*'']
         (replace_all False dynamic_segment_re [RText '':'', RGroup 1] seg))"

text \<open>\<^verbatim>\<open>path || '/'\<close>: the empty string is the only falsy string.\<close>

definition or_slash :: "string \<Rightarrow> string" where
  "or_slash path = (if path = [] then ''/'' else path)"

definition resolveNextJS :: "string \<Rightarrow> ResolvedURL option" where
  "resolveNextJS filePath =
     (case str_match False app_router_re filePath of
        Some appRouterMatch \<Rightarrow>
          (let path = ''/'' @ bracket_transform (group appRouterMatch 1)
           in Some \<lparr>urlPath = or_slash path, confidence = High,
                     reasoning = ''Next.js App Router pattern''\<rparr>)
      | None \<Rightarrow>
          (case str_match False pages_router_re filePath of
             Some pagesRouterMatch \<Rightarrow>
               (let path = ''/'' @ bracket_transform (group pagesRouterMatch 1)
                in Some \<lparr>urlPath = or_slash path, confidence = High,
                          reasoning = ''Next.js Pages Router pattern''\<rparr>)
           | None \<Rightarrow> None))"

definition resolveAstro :: "string \<Rightarrow> ResolvedURL option" where
  "resolveAstro filePath =
     (case str_match False astro_re filePath of
        Some m \<Rightarrow>
          (let path = ''/'' @ bracket_transform (group m 1)
           in Some \<lparr>urlPath = or_slash path, confidence = High, reasoning = ''Astro pages pattern''\<rparr>)
      | None \<Rightarrow> None)"

definition resolveRemix :: "string \<Rightarrow> ResolvedURL option" where
  "resolveRemix filePath =
     (case str_match False remix_re filePath of
        Some m \<Rightarrow>
          (let path = ''/'' @
                 replace_first False index_re []
                   (replace_all False (Lit CHR ''.'') [RText ''/'']
                     (replace_all False (Lit CHR ''$'') [RText '':''] (group m 1)))
           in Some \<lparr>urlPath = or_slash path, confidence = High, reasoning = ''Remix routes pattern''\<rparr>)
      | None \<Rightarrow> None)"

definition resolveGeneric :: "string \<Rightarrow> ResolvedURL option" where
  "resolveGeneric filePath =
     (case str_match True generic_re filePath of
        Some m \<Rightarrow>
          Some \<lparr>urlPath = ''/'' @ group m 1, confidence = Low, reasoning = ''Generic path extraction''\<rparr>
      | None \<Rightarrow> None)"

definition detectFramework :: "string \<Rightarrow> string" where
  "detectFramework filePath =
     (if str_includes filePath ''/app/'' \<or> str_includes filePath ''/pages/'' then ''nextjs''
      else if str_includes filePath ''/src/pages/'' then ''astro''
      else if str_includes filePath ''/routes/'' then ''remix''
      else ''generic'')"

text \<open>
  \<^verbatim>\<open>framework || this.detectFramework(filePath)\<close>: an omitted framework and the empty
  string are both falsy.
\<close>

definition resolve :: "string \<Rightarrow> string option \<Rightarrow> ResolvedURL option" where
  "resolve filePath framework =
     (let detectedFramework =
            (case framework of
               None \<Rightarrow> detectFramework filePath
             | Some f \<Rightarrow> if f = [] then detectFramework filePath else f)
      in if detectedFramework = ''nextjs'' then resolveNextJS filePath
         else if detectedFramework = ''astro'' then resolveAstro filePath
         else if detectedFramework = ''remix'' then resolveRemix filePath
         else resolveGeneric filePath)"

section \<open>The cache\<close>

text \<open>
  \<^verbatim>\<open>services/cache.ts\<close>.  A cached value is any value of the host language; \<^verbatim>\<open>null\<close> and
  \<^verbatim>\<open>undefined\<close> are kept apart from the others because \<^verbatim>\<open>get\<close> answers \<^verbatim>\<open>null\<close> for a
  miss.  Times are integers, in milliseconds; a TTL is an integer number of seconds.
  The store is a \<^verbatim>\<open>Map\<close>: an association list in insertion order, where writing an
  existing key keeps its place.  Every operation takes the reading of \<^verbatim>\<open>Date.now()\<close> it
  makes as its first argument and returns the cache it leaves behind.
\<close>

datatype 'v jsvalue = JSNull | JSUndefined | JSVal 'v

record 'v CacheEntry =
  entryValue :: "'v jsvalue"
  expiresAt :: int

record 'v Cache =
  store :: "(string \<times> 'v CacheEntry) list"
  defaultTTL :: int

subsection \<open>Keys\<close>

text \<open>
  A part of a key is a string, a number or \<^verbatim>\<open>undefined\<close>.  Numbers are modelled as
  integers, written in decimal as \<^verbatim>\<open>join\<close> writes an integer of ordinary size.
\<close>

datatype key_part = PString string | PNumber int | PUndefined

text \<open>\<^verbatim>\<open>Boolean(p)\<close>: the empty string, zero and \<^verbatim>\<open>undefined\<close> are falsy.\<close>

fun Boolean :: "key_part \<Rightarrow> bool" where
  "Boolean (PString s) = (s \<noteq> [])"
| "Boolean (PNumber n) = (n \<noteq> 0)"
| "Boolean PUndefined = False"

function nat_to_string :: "nat \<Rightarrow> string" where
  "nat_to_string n =
     (if n < 10 then [''0123456789'' ! n]
      else nat_to_string (n div 10) @ [''0123456789'' ! (n mod 10)])"
  by pat_completeness auto
termination
  by (relation "measure id") auto

definition number_to_string :: "int \<Rightarrow> string" where
  "number_to_string i = (if i < 0 then CHR ''-'' # nat_to_string (nat (- i)) else nat_to_string (nat i))"

text \<open>The text that \<^verbatim>\<open>join\<close> writes for an element; \<^verbatim>\<open>undefined\<close> is written as nothing.\<close>

fun part_to_string :: "key_part \<Rightarrow> string" where
  "part_to_string (PString s) = s"
| "part_to_string (PNumber n) = number_to_string n"
| "part_to_string PUndefined = []"

fun join :: "string \<Rightarrow> key_part list \<Rightarrow> string" where
  "join sep [] = []"
| "join sep [p] = part_to_string p"
| "join sep (p # q # ps) = part_to_string p @ sep @ join sep (q # ps)"

definition generateKey :: "key_part list \<Rightarrow> string" where
  "generateKey parts = join '':'' (filter Boolean parts)"

subsection \<open>Reading and writing\<close>

definition get :: "int \<Rightarrow> string \<Rightarrow> 'v Cache \<Rightarrow> 'v jsvalue \<times> 'v Cache" where
  "get now key c =
     (case map_of (store c) key of
        None \<Rightarrow> (JSNull, c)
      | Some entry \<Rightarrow>
          if now > expiresAt entry then (JSNull, c\<lparr>store := AList.delete key (store c)\<rparr>)
          else (entryValue entry, c))"

text \<open>\<^verbatim>\<open>ttl || this.defaultTTL\<close>: an omitted TTL and the TTL 0 are both falsy.\<close>

definition set_cache :: "int \<Rightarrow> string \<Rightarrow> 'v jsvalue \<Rightarrow> int option \<Rightarrow> 'v Cache \<Rightarrow> 'v Cache" where
  "set_cache now key v ttl c =
     (let ttlSeconds = (case ttl of None \<Rightarrow> defaultTTL c
                        | Some t \<Rightarrow> if t = 0 then defaultTTL c else t);
          expires = now + ttlSeconds * 1000
      in c\<lparr>store := AList.update key \<lparr>entryValue = v, expiresAt = expires\<rparr> (store c)\<rparr>)"

definition has :: "int \<Rightarrow> string \<Rightarrow> 'v Cache \<Rightarrow> bool \<times> 'v Cache" where
  "has now key c =
     (case map_of (store c) key of
        None \<Rightarrow> (False, c)
      | Some entry \<Rightarrow>
          if now > expiresAt entry then (False, c\<lparr>store := AList.delete key (store c)\<rparr>)
          else (True, c))"

subsection \<open>Deleting by pattern\<close>

text \<open>
  \<^verbatim>\<open>new RegExp(pattern)\<close> belongs to the host language, so the constructor is a parameter:
  it either rejects the pattern with an error, which \<^verbatim>\<open>deletePattern\<close> lets through
  before it has touched the store, or yields the predicate \<^verbatim>\<open>regex.test\<close> (the pattern
  has no flags, so \<^verbatim>\<open>test\<close> keeps no state between calls).  The loop visits the keys in
  store order; it deletes only the key it is visiting, which does not disturb the
  iteration of a \<^verbatim>\<open>Map\<close>.
\<close>

fun delete_loop ::
  "(string \<Rightarrow> bool) \<Rightarrow> string list \<Rightarrow> nat \<times> (string \<times> 'v CacheEntry) list
     \<Rightarrow> nat \<times> (string \<times> 'v CacheEntry) list" where
  "delete_loop test [] acc = acc"
| "delete_loop test (key # keys) (deleted, st) =
     (if test key then delete_loop test keys (deleted + 1, AList.delete key st)
      else delete_loop test keys (deleted, st))"

definition deletePattern ::
  "(string \<Rightarrow> 'e + (string \<Rightarrow> bool)) \<Rightarrow> string \<Rightarrow> 'v Cache \<Rightarrow> 'e + nat \<times> 'v Cache" where
  "deletePattern RegExp pattern c =
     (case RegExp pattern of
        Inl err \<Rightarrow> Inl err
      | Inr test \<Rightarrow>
          (case delete_loop test (map fst (store c)) (0, store c) of
             (deleted, st) \<Rightarrow> Inr (deleted, c\<lparr>store := st\<rparr>)))"

subsection \<open>Get or set\<close>

text \<open>
  The factory is a procedure of the caller.  It is modelled as a function on the state
  \<open>'w\<close> of everything outside the cache: called in state \<open>w\<close> it leaves a new state and
  the outcome with which its promise settles, \<open>Inl\<close> a rejection and \<open>Inr\<close> a value.

  \<^verbatim>\<open>getOrSet\<close> runs in two uninterrupted segments, separated by its one \<^verbatim>\<open>await\<close>.
  The first reads the cache and, on a miss, calls the factory; the second runs once the
  promise has settled, and stores and returns the value, or rethrows the rejection.
\<close>

definition getOrSet_begin ::
  "int \<Rightarrow> string \<Rightarrow> ('w \<Rightarrow> 'p \<times> 'w) \<Rightarrow> 'v Cache \<times> 'w \<Rightarrow> ('v jsvalue + 'p) \<times> 'v Cache \<times> 'w" where
  "getOrSet_begin now key factory s =
     (case get now key (fst s) of
        (cached, c) \<Rightarrow>
          if cached \<noteq> JSNull then (Inl cached, c, snd s)
          else (case factory (snd s) of (promise, w) \<Rightarrow> (Inr promise, c, w)))"

definition getOrSet_resume ::
  "int \<Rightarrow> string \<Rightarrow> 'e + 'v jsvalue \<Rightarrow> int option \<Rightarrow> 'v Cache \<Rightarrow> ('e + 'v jsvalue) \<times> 'v Cache" where
  "getOrSet_resume now key outcome ttl c =
     (case outcome of
        Inl err \<Rightarrow> (Inl err, c)
      | Inr v \<Rightarrow> (Inr v, set_cache now key v ttl c))"

text \<open>
  One call run from start to end with nothing else in between: \<open>now\<close> is the clock read by
  \<^verbatim>\<open>get\<close>, \<open>now'\<close> the clock read by \<^verbatim>\<open>set\<close> after the promise has settled.
\<close>

definition getOrSet ::
  "int \<Rightarrow> int \<Rightarrow> string \<Rightarrow> ('w \<Rightarrow> ('e + 'v jsvalue) \<times> 'w) \<Rightarrow> int option \<Rightarrow> 'v Cache \<times> 'w
     \<Rightarrow> ('e + 'v jsvalue) \<times> 'v Cache \<times> 'w" where
  "getOrSet now now' key factory ttl s =
     (case getOrSet_begin now key factory s of
        (Inl cached, c, w) \<Rightarrow> (Inr cached, c, w)
      | (Inr outcome, c, w) \<Rightarrow>
          (case getOrSet_resume now' key outcome ttl c of (res, c') \<Rightarrow> (res, c', w)))"

text \<open>
  Callers that arrive while a computation is in flight: each runs its first segment
  (at its own time) before any promise has settled.  The second segments run afterwards,
  one whenever a promise settles.  A schedule lists, in the order in which the promises
  settle, the caller (its index in the order of the calls) and the clock at that moment;
  the second segment of that caller runs then, with the outcome of the promise its own
  caller awaits.  A caller answered from the cache awaits nothing and has only its answer
  to deliver; an index that names no caller is skipped.
\<close>

fun begin_all ::
  "int list \<Rightarrow> string \<Rightarrow> ('w \<Rightarrow> 'p \<times> 'w) \<Rightarrow> 'v Cache \<times> 'w \<Rightarrow> ('v jsvalue + 'p) list \<times> 'v Cache \<times> 'w" where
  "begin_all [] key factory s = ([], s)"
| "begin_all (now # nows) key factory s =
     (case getOrSet_begin now key factory s of
        (r, s') \<Rightarrow> (case begin_all nows key factory s' of (rs, s'') \<Rightarrow> (r # rs, s'')))"

fun resume_all ::
  "(nat \<times> int) list \<Rightarrow> ('v jsvalue + 'e + 'v jsvalue) list \<Rightarrow> string \<Rightarrow> int option \<Rightarrow> 'v Cache
     \<Rightarrow> (nat \<times> ('e + 'v jsvalue)) list \<times> 'v Cache" where
  "resume_all [] pending key ttl c = ([], c)"
| "resume_all ((i, now) # schedule) pending key ttl c =
     (if i < length pending then
        (case pending ! i of
           Inl cached \<Rightarrow>
             (case resume_all schedule pending key ttl c of (rs, c') \<Rightarrow> ((i, Inr cached) # rs, c'))
         | Inr outcome \<Rightarrow>
             (case getOrSet_resume now key outcome ttl c of
                (r, c1) \<Rightarrow>
                  (case resume_all schedule pending key ttl c1 of (rs, c') \<Rightarrow> ((i, r) # rs, c'))))
      else resume_all schedule pending key ttl c)"

text \<open>
  The result lists, in the order of the schedule, each caller with what its call returns
  or throws; with it come the cache and the outside state that are left.
\<close>

definition concurrent_getOrSet ::
  "int list \<Rightarrow> (nat \<times> int) list \<Rightarrow> string \<Rightarrow> ('w \<Rightarrow> ('e + 'v jsvalue) \<times> 'w) \<Rightarrow> int option
     \<Rightarrow> 'v Cache \<times> 'w \<Rightarrow> (nat \<times> ('e + 'v jsvalue)) list \<times> 'v Cache \<times> 'w" where
  "concurrent_getOrSet begins schedule key factory ttl s =
     (case begin_all begins key factory s of
        (pending, c, w) \<Rightarrow>
          (case resume_all schedule pending key ttl c of (results, c') \<Rightarrow> (results, c', w)))"

text \<open>The factory called \<open>n\<close> times in a row: the outcomes, in order, and the state left.\<close>

fun invoke_times :: "nat \<Rightarrow> ('w \<Rightarrow> 'p \<times> 'w) \<Rightarrow> 'w \<Rightarrow> 'p list \<times> 'w" where
  "invoke_times 0 factory w = ([], w)"
| "invoke_times (Suc n) factory w =
     (case factory w of (p, w') \<Rightarrow> (case invoke_times n factory w' of (ps, w'') \<Rightarrow> (p # ps, w'')))"

section \<open>Vocabulary of the properties\<close>

text \<open>
  The characters that the generic fallback accepts in the part of the path it captures:
  ASCII letters of either case, digits, hyphen, underscore and slash.
\<close>

definition ascii_between :: "char \<Rightarrow> char \<Rightarrow> char \<Rightarrow> bool" where
  "ascii_between lo hi c \<longleftrightarrow> code_unit lo \<le> code_unit c \<and> code_unit c \<le> code_unit hi"

definition url_char :: "char \<Rightarrow> bool" where
  "url_char c \<longleftrightarrow>
     ascii_between CHR ''a'' CHR ''z'' c \<or> ascii_between CHR ''A'' CHR ''Z'' c \<or>
     ascii_between CHR ''0'' CHR ''9'' c \<or> c = CHR ''-'' \<or> c = CHR ''_'' \<or> c = CHR ''/''"

text \<open>The extensions of the generic fallback, in any mix of cases.\<close>

definition generic_ext :: "string \<Rightarrow> bool" where
  "generic_ext ext \<longleftrightarrow> map to_lower ext \<in> {''html'', ''htm'', ''php'', ''md''}"

text \<open>
  A way to read a path as \<open>pre\<close>, a slash, a non-empty \<open>body\<close> of accepted characters, a
  dot and an extension of the generic fallback.
\<close>

definition generic_split :: "string \<Rightarrow> string \<Rightarrow> string \<Rightarrow> string \<Rightarrow> bool" where
  "generic_split p pre body ext \<longleftrightarrow>
     p = pre @ ''/'' @ body @ ''.'' @ ext \<and> body \<noteq> [] \<and> list_all url_char body \<and> generic_ext ext"

section \<open>Properties of the resolver\<close>

text \<open>
  C1.  The catch-all rule is meant to turn \<^verbatim>\<open>[...path]\<close> into \<^verbatim>\<open>*\<close>, so that
  \<^verbatim>\<open>/app/docs/[...path]/page.tsx\<close> resolves to \<^verbatim>\<open>/docs/*\<close>.  The source applies the
  dynamic-segment rule first; it rewrites \<^verbatim>\<open>[...path]\<close> to \<^verbatim>\<open>:...path\<close>, after which the
  catch-all rule finds nothing to replace: the path resolves to \<^verbatim>\<open>/docs/:...path\<close>, with
  confidence high.
\<close>

theorem resolve_catch_all_app_router:
  "resolve ''/app/docs/[...path]/page.tsx'' None =
     Some \<lparr>urlPath = ''/docs/:...path'', confidence = High,
           reasoning = ''Next.js App Router pattern''\<rparr>"
  by code_simp

text \<open>
  C6.  Without a framework argument a path under \<^verbatim>\<open>/src/pages/\<close> ending in \<^verbatim>\<open>.astro\<close> is
  meant to reach the Astro matcher.  Every path that contains \<^verbatim>\<open>/src/pages/\<close> contains
  \<^verbatim>\<open>/pages/\<close>, which the detection tests first: the path is taken for a Next.js path,
  neither Next.js pattern accepts the extension \<^verbatim>\<open>.astro\<close>, and the result is absent,
  although the Astro matcher itself resolves the path to \<^verbatim>\<open>/blog/:slug\<close>.
\<close>

theorem resolve_astro_path_detected_as_nextjs:
  "detectFramework ''/src/pages/blog/[slug].astro'' = ''nextjs'' \<and>
   resolve ''/src/pages/blog/[slug].astro'' None = None \<and>
   resolveAstro ''/src/pages/blog/[slug].astro'' =
     Some \<lparr>urlPath = ''/blog/:slug'', confidence = High, reasoning = ''Astro pages pattern''\<rparr>"
  by code_simp

subsection \<open>The generic fallback\<close>

text \<open>Code units, canonical forms and the character class of the generic pattern.\<close>

lemma code_unit_eq_iff: "code_unit c = code_unit d \<longleftrightarrow> c = d"
  by (simp add: code_unit_def)

lemma code_unit_to_upper:
  "code_unit (to_upper c) =
     (if 97 \<le> code_unit c \<and> code_unit c \<le> 122 then code_unit c - 32 else code_unit c)"
proof -
  have "(of_char c :: nat) < 256" by simp
  then show ?thesis by (auto simp: to_upper_def code_unit_def)
qed

lemma code_unit_to_lower:
  "code_unit (to_lower c) =
     (if 65 \<le> code_unit c \<and> code_unit c \<le> 90 then code_unit c + 32 else code_unit c)"
proof -
  have "(of_char c :: nat) < 256" by simp
  then show ?thesis by (auto simp: to_lower_def code_unit_def)
qed

lemma generic_ranges:
  "in_ranges [(CHR ''a'', CHR ''z''), (CHR ''0'', CHR ''9''), (CHR ''-'', CHR ''-''),
              (CHR ''_'', CHR ''_''), (CHR ''/'', CHR ''/'')] d \<longleftrightarrow>
     (97 \<le> code_unit d \<and> code_unit d \<le> 122) \<or> (48 \<le> code_unit d \<and> code_unit d \<le> 57) \<or>
     code_unit d = 45 \<or> code_unit d = 95 \<or> code_unit d = 47"
proof -
  have lits: "code_unit CHR ''a'' = 97" "code_unit CHR ''z'' = 122" "code_unit CHR ''0'' = 48"
    "code_unit CHR ''9'' = 57" "code_unit CHR ''-'' = 45" "code_unit CHR ''_'' = 95"
    "code_unit CHR ''/'' = 47"
    by (simp_all add: code_unit_def)
  show ?thesis
    by (auto simp: in_ranges_def lits)
qed

lemma url_char_code:
  "url_char c \<longleftrightarrow>
     (97 \<le> code_unit c \<and> code_unit c \<le> 122) \<or> (65 \<le> code_unit c \<and> code_unit c \<le> 90) \<or>
     (48 \<le> code_unit c \<and> code_unit c \<le> 57) \<or>
     code_unit c = 45 \<or> code_unit c = 95 \<or> code_unit c = 47"
proof -
  have lits: "code_unit CHR ''a'' = 97" "code_unit CHR ''z'' = 122" "code_unit CHR ''A'' = 65"
    "code_unit CHR ''Z'' = 90" "code_unit CHR ''0'' = 48" "code_unit CHR ''9'' = 57"
    by (simp_all add: code_unit_def)
  have eqs: "c = CHR ''-'' \<longleftrightarrow> code_unit c = 45" "c = CHR ''_'' \<longleftrightarrow> code_unit c = 95"
    "c = CHR ''/'' \<longleftrightarrow> code_unit c = 47"
    by (simp_all add: code_unit_def flip: of_char_eq_iff [where ?'a = nat])
  show ?thesis
    unfolding url_char_def ascii_between_def lits eqs by (rule refl)
qed

lemma generic_class_iff:
  "cls_match True [(CHR ''a'', CHR ''z''), (CHR ''0'', CHR ''9''), (CHR ''-'', CHR ''-''),
                   (CHR ''_'', CHR ''_''), (CHR ''/'', CHR ''/'')] c \<longleftrightarrow> url_char c"
proof -
  consider (lower) "97 \<le> code_unit c \<and> code_unit c \<le> 122"
    | (upper) "65 \<le> code_unit c \<and> code_unit c \<le> 90"
    | (other) "\<not> (97 \<le> code_unit c \<and> code_unit c \<le> 122) \<and> \<not> (65 \<le> code_unit c \<and> code_unit c \<le> 90)"
    by blast
  then show ?thesis
  proof cases
    case lower
    then show ?thesis
      by (simp add: cls_match_def generic_ranges url_char_code)
  next
    case upper
    then have "code_unit (to_lower c) = code_unit c + 32" "code_unit (to_upper c) = code_unit c"
      by (simp_all add: code_unit_to_lower code_unit_to_upper)
    with upper show ?thesis
      by (simp add: cls_match_def generic_ranges url_char_code)
  next
    case other
    then have "code_unit (to_lower c) = code_unit c" "code_unit (to_upper c) = code_unit c"
      by (auto simp: code_unit_to_lower code_unit_to_upper)
    with other show ?thesis
      by (auto simp: cls_match_def generic_ranges url_char_code)
  qed
qed

text \<open>The matcher on runs of one character class, on literal text and on the other nodes.\<close>

lemma canon_eq_lower:
  assumes "97 \<le> code_unit l" "code_unit l \<le> 122"
  shows "canon True x = canon True l \<longleftrightarrow> to_lower x = l"
proof -
  have "canon True x = canon True l \<longleftrightarrow> code_unit (to_upper x) = code_unit (to_upper l)"
    by (simp add: canon_def code_unit_eq_iff)
  also have "\<dots> \<longleftrightarrow> code_unit (to_lower x) = code_unit l"
    using assms by (simp add: code_unit_to_upper code_unit_to_lower) arith
  finally show ?thesis by (simp add: code_unit_eq_iff)
qed

lemma canon_eq_nonletter:
  assumes "code_unit l < 65"
  shows "canon True x = canon True l \<longleftrightarrow> x = l"
proof -
  have "canon True x = canon True l \<longleftrightarrow> code_unit (to_upper x) = code_unit (to_upper l)"
    by (simp add: canon_def code_unit_eq_iff)
  also have "\<dots> \<longleftrightarrow> code_unit x = code_unit l"
    using assms by (simp add: code_unit_to_upper) arith
  finally show ?thesis by (simp add: code_unit_eq_iff)
qed

lemma one_char_Nil: "one_char P ([], cs) = []"
  by (simp add: one_char_def)

lemma one_char_Cons: "one_char P (x # xs, cs) = (if P x then [(xs, cs)] else [])"
  by (simp add: one_char_def)

lemma set_star_one_char_Nil: "set (star g (one_char P) n ([], cs)) = {([], cs)}"
  by (cases n) (auto simp: Let_def one_char_Nil)

lemma set_star_one_char_Cons:
  "set (star g (one_char P) (Suc n) (x # xs, cs)) =
     insert (x # xs, cs) (if P x then set (star g (one_char P) n (xs, cs)) else {})"
  by (auto simp: Let_def one_char_Cons progress_def)

lemma star_one_char:
  "(s', cs') \<in> set (star g (one_char P) n (s, cs)) \<longleftrightarrow>
     cs' = cs \<and> (\<exists>u. s = u @ s' \<and> (\<forall>c \<in> set u. P c) \<and> length u \<le> n)"
proof (induction n arbitrary: s)
  case 0
  then show ?case by auto
next
  case (Suc n)
  note IH = Suc.IH
  show ?case
  proof (cases s)
    case Nil
    then show ?thesis
      by (auto simp: set_star_one_char_Nil simp del: star.simps)
  next
    case (Cons x xs)
    have "(\<exists>u. x # xs = u @ s' \<and> (\<forall>c \<in> set u. P c) \<and> length u \<le> Suc n) \<longleftrightarrow>
          x # xs = s' \<or> (P x \<and> (\<exists>u. xs = u @ s' \<and> (\<forall>c \<in> set u. P c) \<and> length u \<le> n))"
      by (auto simp: Cons_eq_append_conv)
    with Cons IH [of xs] show ?thesis
      by (auto simp: set_star_one_char_Cons simp del: star.simps)
  qed
qed

lemma ms_plus_one_char:
  assumes "ms ic a = one_char P"
  shows "(s', cs') \<in> set (ms ic (Plus a) (s, cs)) \<longleftrightarrow>
           cs' = cs \<and> (\<exists>u. s = u @ s' \<and> u \<noteq> [] \<and> (\<forall>c \<in> set u. P c))"
proof (cases s)
  case Nil
  then show ?thesis by (simp add: assms one_char_Nil)
next
  case (Cons x xs)
  have "(\<exists>u. x # xs = u @ s' \<and> u \<noteq> [] \<and> (\<forall>c \<in> set u. P c)) \<longleftrightarrow>
        P x \<and> (\<exists>u. xs = u @ s' \<and> (\<forall>c \<in> set u. P c) \<and> length u \<le> Suc (length xs))"
    by (auto simp: Cons_eq_append_conv)
  with Cons show ?thesis
    by (auto simp: assms one_char_Cons star_one_char simp del: star.simps)
qed

lemma ms_lits_Cons:
  "ms ic (lits (c # w)) st = concat (map (ms ic (lits w)) (ms ic (Lit c) st))"
  by (simp add: lits_def)

lemma ms_lits:
  "ms ic (lits w) (s, cs) =
     (if length w \<le> length s \<and> map (canon ic) (take (length w) s) = map (canon ic) w
      then [(drop (length w) s, cs)] else [])"
proof (induction w arbitrary: s)
  case Nil
  then show ?case by (simp add: lits_def)
next
  case (Cons c w)
  note IH = Cons.IH
  show ?case
  proof (cases s)
    case Nil
    then show ?thesis by (simp add: ms_lits_Cons one_char_Nil)
  next
    case (Cons x xs)
    with IH [of xs] show ?thesis
      by (simp add: ms_lits_Cons one_char_Cons)
  qed
qed

lemma in_ms_Seq:
  "(s', cs') \<in> set (ms ic (Seq a b) (s, cs)) \<longleftrightarrow>
     (\<exists>t ct. (t, ct) \<in> set (ms ic a (s, cs)) \<and> (s', cs') \<in> set (ms ic b (t, ct)))"
  by auto

lemma in_ms_Grp:
  "(s', cs') \<in> set (ms ic (Grp n a) (s, cs)) \<longleftrightarrow>
     (\<exists>c0. (s', c0) \<in> set (ms ic a (s, cs)) \<and> cs' = c0(n \<mapsto> take (length s - length s') s))"
  by (force simp: image_iff)

lemma in_ms_Lit:
  "(s', cs') \<in> set (ms ic (Lit c) (s, cs)) \<longleftrightarrow>
     cs' = cs \<and> (\<exists>x. s = x # s' \<and> canon ic x = canon ic c)"
  by (cases s) (auto simp: one_char_Nil one_char_Cons)

lemma in_ms_Opt_Lit:
  "(s', cs') \<in> set (ms ic (Opt (Lit c)) (s, cs)) \<longleftrightarrow>
     cs' = cs \<and> (s' = s \<or> (\<exists>x. s = x # s' \<and> canon ic x = canon ic c))"
  by (cases s) (auto simp: one_char_Nil one_char_Cons progress_def)

lemma in_ms_Eoi_Eps:
  "(s', cs') \<in> set (ms ic (Seq Eoi Eps) (s, cs)) \<longleftrightarrow> s = [] \<and> s' = [] \<and> cs' = cs"
  by auto

lemma map_canon_lower:
  assumes "\<forall>c \<in> set w. 97 \<le> code_unit c \<and> code_unit c \<le> 122" and "length u = length w"
  shows "map (canon True) u = map (canon True) w \<longleftrightarrow> map to_lower u = w"
  using assms(2,1) by (induction u w rule: list_induct2) (simp_all add: canon_eq_lower)

lemma in_ms_lits_lower:
  assumes "\<forall>c \<in> set w. 97 \<le> code_unit c \<and> code_unit c \<le> 122"
  shows "(s', cs') \<in> set (ms True (lits w) (s, cs)) \<longleftrightarrow>
           cs' = cs \<and> (\<exists>u. s = u @ s' \<and> map to_lower u = w)"
proof
  assume "(s', cs') \<in> set (ms True (lits w) (s, cs))"
  then have *: "length w \<le> length s" "map (canon True) (take (length w) s) = map (canon True) w"
    "s' = drop (length w) s" "cs' = cs"
    by (auto simp: ms_lits split: if_splits)
  then have "map to_lower (take (length w) s) = w"
    using map_canon_lower [OF assms, of "take (length w) s"] by simp
  moreover have "s = take (length w) s @ s'"
    using * by simp
  ultimately show "cs' = cs \<and> (\<exists>u. s = u @ s' \<and> map to_lower u = w)"
    using * by blast
next
  assume "cs' = cs \<and> (\<exists>u. s = u @ s' \<and> map to_lower u = w)"
  then obtain u where u: "cs' = cs" "s = u @ s'" "map to_lower u = w"
    by blast
  then have "length u = length w" by auto
  with u map_canon_lower [OF assms, of u] show "(s', cs') \<in> set (ms True (lits w) (s, cs))"
    by (simp add: ms_lits)
qed

text \<open>
  The end states of a pattern of the shape of the generic one: a literal, a captured run
  of class characters, a literal, a captured extension, the end of the input.
\<close>

lemma in_ms_lits_opt:
  assumes w: "\<forall>c \<in> set w. 97 \<le> code_unit c \<and> code_unit c \<le> 122"
    and l: "97 \<le> code_unit l" "code_unit l \<le> 122"
  shows "(s', cs') \<in> set (ms True (Seq (lits w) (Opt (Lit l))) (s, cs)) \<longleftrightarrow>
           cs' = cs \<and> (\<exists>u. s = u @ s' \<and> (map to_lower u = w \<or> map to_lower u = w @ [l]))"
proof -
  have "(s', cs') \<in> set (ms True (Seq (lits w) (Opt (Lit l))) (s, cs)) \<longleftrightarrow>
        cs' = cs \<and> ((\<exists>u. s = u @ s' \<and> map to_lower u = w) \<or>
                    (\<exists>u x. s = u @ x # s' \<and> map to_lower u = w \<and> to_lower x = l))"
    unfolding in_ms_Seq in_ms_Opt_Lit in_ms_lits_lower [OF w] canon_eq_lower [OF l]
    by blast
  moreover have "(\<exists>u x. s = u @ x # s' \<and> map to_lower u = w \<and> to_lower x = l) \<longleftrightarrow>
                 (\<exists>u. s = u @ s' \<and> map to_lower u = w @ [l])"
  proof
    assume "\<exists>u x. s = u @ x # s' \<and> map to_lower u = w \<and> to_lower x = l"
    then obtain u x where "s = u @ x # s'" "map to_lower u = w" "to_lower x = l"
      by blast
    then have "s = (u @ [x]) @ s' \<and> map to_lower (u @ [x]) = w @ [l]"
      by simp
    then show "\<exists>u. s = u @ s' \<and> map to_lower u = w @ [l]" ..
  next
    assume "\<exists>u. s = u @ s' \<and> map to_lower u = w @ [l]"
    then obtain v where v: "s = v @ s'" "map to_lower v = w @ [l]"
      by blast
    from v(2) obtain u t where ut: "v = u @ t" "map to_lower u = w" "map to_lower t = [l]"
      by (auto simp: map_eq_append_conv)
    from ut(3) obtain x where "t = [x]" "to_lower x = l"
      by auto
    with v(1) ut have "s = u @ x # s' \<and> map to_lower u = w \<and> to_lower x = l"
      by simp
    then show "\<exists>u x. s = u @ x # s' \<and> map to_lower u = w \<and> to_lower x = l"
      by blast
  qed
  ultimately show ?thesis
    by blast
qed

lemma four_way:
  "(\<exists>u. P u \<and> (f u = a \<or> f u = b)) \<or> (\<exists>u. P u \<and> f u = c) \<or> (\<exists>u. P u \<and> f u = d) \<longleftrightarrow>
   (\<exists>w. P w \<and> f w \<in> {b, a, c, d})"
  by blast

lemma in_ms_alt3:
  assumes "\<And>s' cs'. (s', cs') \<in> set (ms ic A (s, cs)) \<longleftrightarrow> cs' = cs \<and> (\<exists>u. s = u @ s' \<and> (f u = a \<or> f u = b))"
    and "\<And>s' cs'. (s', cs') \<in> set (ms ic B (s, cs)) \<longleftrightarrow> cs' = cs \<and> (\<exists>u. s = u @ s' \<and> f u = c)"
    and "\<And>s' cs'. (s', cs') \<in> set (ms ic C (s, cs)) \<longleftrightarrow> cs' = cs \<and> (\<exists>u. s = u @ s' \<and> f u = d)"
  shows "(s', cs') \<in> set (ms ic (Alt A (Alt B C)) (s, cs)) \<longleftrightarrow>
           cs' = cs \<and> (\<exists>w. s = w @ s' \<and> f w \<in> {b, a, c, d})"
proof -
  have "(s', cs') \<in> set (ms ic (Alt A (Alt B C)) (s, cs)) \<longleftrightarrow>
        (s', cs') \<in> set (ms ic A (s, cs)) \<or> (s', cs') \<in> set (ms ic B (s, cs)) \<or>
        (s', cs') \<in> set (ms ic C (s, cs))"
    by simp
  then show ?thesis
    unfolding assms four_way [of "\<lambda>u. s = u @ s'" f a b c d, symmetric] by blast
qed

lemma in_ms_slash_body_dot_ext:
  assumes cls: "ms ic C = one_char P"
    and ext: "\<And>s' cs' s cs. (s', cs') \<in> set (ms ic E (s, cs)) \<longleftrightarrow> cs' = cs \<and> (\<exists>w. s = w @ s' \<and> X w)"
    and sl: "\<And>x. canon ic x = canon ic sl \<longleftrightarrow> x = sl"
    and dt: "\<And>x. canon ic x = canon ic dt \<longleftrightarrow> x = dt"
  shows "(s', cs') \<in> set (ms ic (Seq (Lit sl) (Seq (Grp g1 (Plus C))
                               (Seq (Lit dt) (Seq (Grp g2 E) (Seq Eoi Eps))))) (s, cs)) \<longleftrightarrow>
           s' = [] \<and> (\<exists>body e. s = sl # body @ dt # e \<and> body \<noteq> [] \<and> (\<forall>c \<in> set body. P c) \<and>
                         X e \<and> cs' = cs(g1 \<mapsto> body, g2 \<mapsto> e))"
proof -
  have t4: "(s', cs') \<in> set (ms ic (Seq (Grp g2 E) (Seq Eoi Eps)) (t, ct)) \<longleftrightarrow>
              s' = [] \<and> X t \<and> cs' = ct(g2 \<mapsto> t)" for t ct
    unfolding in_ms_Seq in_ms_Grp ext in_ms_Eoi_Eps by auto
  have t3: "(s', cs') \<in> set (ms ic (Seq (Lit dt) (Seq (Grp g2 E) (Seq Eoi Eps))) (t, ct)) \<longleftrightarrow>
              s' = [] \<and> (\<exists>e. t = dt # e \<and> X e \<and> cs' = ct(g2 \<mapsto> e))" for t ct
    unfolding in_ms_Seq [of _ _ _ "Lit dt"] in_ms_Lit t4 dt by auto
  have t2: "(s', cs') \<in> set (ms ic (Seq (Grp g1 (Plus C)) (Seq (Lit dt) (Seq (Grp g2 E) (Seq Eoi Eps)))) (t, ct)) \<longleftrightarrow>
              s' = [] \<and> (\<exists>body e. t = body @ dt # e \<and> body \<noteq> [] \<and> (\<forall>c \<in> set body. P c) \<and>
                            X e \<and> cs' = ct(g1 \<mapsto> body, g2 \<mapsto> e))" for t ct
  proof
    assume "(s', cs') \<in> set (ms ic (Seq (Grp g1 (Plus C)) (Seq (Lit dt) (Seq (Grp g2 E) (Seq Eoi Eps)))) (t, ct))"
    then obtain m cm where m: "(m, cm) \<in> set (ms ic (Grp g1 (Plus C)) (t, ct))"
      and rest: "(s', cs') \<in> set (ms ic (Seq (Lit dt) (Seq (Grp g2 E) (Seq Eoi Eps))) (m, cm))"
      unfolding in_ms_Seq [of _ _ _ "Grp g1 (Plus C)"] by blast
    from m obtain body where body: "t = body @ m" "body \<noteq> []" "\<forall>c \<in> set body. P c"
      "cm = ct(g1 \<mapsto> take (length t - length m) t)"
      unfolding in_ms_Grp ms_plus_one_char [OF cls] by blast
    then have cm: "cm = ct(g1 \<mapsto> body)" by simp
    from rest obtain e where "s' = []" "m = dt # e" "X e" "cs' = cm(g2 \<mapsto> e)"
      unfolding t3 by blast
    with body(1-3) cm show "s' = [] \<and> (\<exists>body e. t = body @ dt # e \<and> body \<noteq> [] \<and> (\<forall>c \<in> set body. P c) \<and>
                            X e \<and> cs' = ct(g1 \<mapsto> body, g2 \<mapsto> e))"
      by blast
  next
    assume "s' = [] \<and> (\<exists>body e. t = body @ dt # e \<and> body \<noteq> [] \<and> (\<forall>c \<in> set body. P c) \<and>
                            X e \<and> cs' = ct(g1 \<mapsto> body, g2 \<mapsto> e))"
    then obtain body e where be: "s' = []" "t = body @ dt # e" "body \<noteq> []" "\<forall>c \<in> set body. P c"
      "X e" "cs' = ct(g1 \<mapsto> body, g2 \<mapsto> e)"
      by blast
    have "take (length t - length (dt # e)) t = body"
      using be(2) by simp
    then have "(dt # e, ct(g1 \<mapsto> body)) \<in> set (ms ic (Grp g1 (Plus C)) (t, ct))"
      unfolding in_ms_Grp ms_plus_one_char [OF cls] using be(2-4) by blast
    moreover have "(s', cs') \<in> set (ms ic (Seq (Lit dt) (Seq (Grp g2 E) (Seq Eoi Eps))) (dt # e, ct(g1 \<mapsto> body)))"
      unfolding t3 using be by blast
    ultimately show "(s', cs') \<in> set (ms ic (Seq (Grp g1 (Plus C)) (Seq (Lit dt) (Seq (Grp g2 E) (Seq Eoi Eps)))) (t, ct))"
      unfolding in_ms_Seq [of _ _ _ "Grp g1 (Plus C)"] by blast
  qed
  show ?thesis
    unfolding in_ms_Seq [of _ _ _ "Lit sl"] in_ms_Lit t2 sl by auto
qed

text \<open>The generic pattern itself, and the ways to split a path.\<close>

lemma lower_letters:
  "\<forall>c \<in> set ''htm''. 97 \<le> code_unit c \<and> code_unit c \<le> 122"
  "\<forall>c \<in> set ''php''. 97 \<le> code_unit c \<and> code_unit c \<le> 122"
  "\<forall>c \<in> set ''md''. 97 \<le> code_unit c \<and> code_unit c \<le> 122"
  "97 \<le> code_unit CHR ''l''" "code_unit CHR ''l'' \<le> 122"
  by (simp_all add: code_unit_def)

lemma in_ms_generic_ext:
  "(s', cs') \<in> set (ms True (Alt (Seq (lits ''htm'') (Opt (Lit CHR ''l'')))
                               (Alt (lits ''php'') (lits ''md''))) (s, cs))
     \<longleftrightarrow> cs' = cs \<and> (\<exists>w. s = w @ s' \<and> generic_ext w)"
proof -
  have "(s', cs') \<in> set (ms True (Alt (Seq (lits ''htm'') (Opt (Lit CHR ''l'')))
                               (Alt (lits ''php'') (lits ''md''))) (s, cs))
     \<longleftrightarrow> cs' = cs \<and> (\<exists>w. s = w @ s' \<and>
            map to_lower w \<in> {''htm'' @ [CHR ''l''], ''htm'', ''php'', ''md''})"
    by (rule in_ms_alt3)
       (rule in_ms_lits_opt [OF lower_letters(1,4,5)] in_ms_lits_lower [OF lower_letters(2)]
             in_ms_lits_lower [OF lower_letters(3)])+
  then show ?thesis
    by (simp add: generic_ext_def)
qed

lemma generic_split_here:
  "generic_split v [] body ext \<longleftrightarrow>
     v = CHR ''/'' # body @ CHR ''.'' # ext \<and> body \<noteq> [] \<and> (\<forall>c \<in> set body. url_char c) \<and> generic_ext ext"
  by (simp add: generic_split_def list_all_iff)

lemma generic_split_append: "generic_split (u @ v) u body ext \<longleftrightarrow> generic_split v [] body ext"
  by (simp add: generic_split_def)

lemma generic_split_suffix: "generic_split p pre body ext \<Longrightarrow> \<exists>v. p = pre @ v \<and> generic_split v [] body ext"
  by (simp add: generic_split_def)

lemma in_ms_generic:
  "(s', cs') \<in> set (ms True generic_re (v, cs)) \<longleftrightarrow>
     s' = [] \<and> (\<exists>body ext. generic_split v [] body ext \<and> cs' = cs(1 \<mapsto> body, 2 \<mapsto> ext))"
proof -
  let ?C = "Cls [(CHR ''a'', CHR ''z''), (CHR ''0'', CHR ''9''), (CHR ''-'', CHR ''-''),
                 (CHR ''_'', CHR ''_''), (CHR ''/'', CHR ''/'')]"
  let ?E = "Alt (Seq (lits ''htm'') (Opt (Lit CHR ''l''))) (Alt (lits ''php'') (lits ''md''))"
  have "cls_match True [(CHR ''a'', CHR ''z''), (CHR ''0'', CHR ''9''), (CHR ''-'', CHR ''-''),
                 (CHR ''_'', CHR ''_''), (CHR ''/'', CHR ''/'')] = url_char"
    by (rule ext) (rule generic_class_iff)
  then have cls: "ms True ?C = one_char url_char"
    by simp
  have sl: "canon True x = canon True CHR ''/'' \<longleftrightarrow> x = CHR ''/''" for x
    by (rule canon_eq_nonletter) (simp add: code_unit_def)
  have dt: "canon True x = canon True CHR ''.'' \<longleftrightarrow> x = CHR ''.''" for x
    by (rule canon_eq_nonletter) (simp add: code_unit_def)
  have re: "generic_re = Seq (Lit CHR ''/'') (Seq (Grp 1 (Plus ?C))
              (Seq (Lit CHR ''.'') (Seq (Grp 2 ?E) (Seq Eoi Eps))))"
    by (simp add: generic_re_def seqs_def)
  note main = in_ms_slash_body_dot_ext [OF cls in_ms_generic_ext sl dt,
      where ?g1.0 = 1 and ?g2.0 = 2 and s = v and cs = cs and s' = s' and cs' = cs']
  show ?thesis
    unfolding re generic_split_here conj_assoc by (rule main)
qed

lemma generic_ext_no_dot: "generic_ext ext \<Longrightarrow> CHR ''.'' \<notin> set ext"
proof
  assume ext: "generic_ext ext" and "CHR ''.'' \<in> set ext"
  then have "to_lower CHR ''.'' \<in> set (map to_lower ext)"
    by simp
  moreover have "to_lower CHR ''.'' = CHR ''.''"
    by (simp add: to_lower_def code_unit_def)
  ultimately show False
    using ext unfolding generic_ext_def by auto
qed

lemma last_occurrence_unique:
  assumes "a @ x # e = a' @ x # e'" and "x \<notin> set e" and "x \<notin> set e'"
  shows "a = a' \<and> e = e'"
  using assms by (auto simp: append_eq_append_conv2 Cons_eq_append_conv append_eq_Cons_conv)

lemma generic_split_same_end:
  assumes "generic_split p pre body ext" and "generic_split p pre' body' ext'"
  shows "pre @ CHR ''/'' # body = pre' @ CHR ''/'' # body' \<and> ext = ext'"
proof -
  have "(pre @ CHR ''/'' # body) @ CHR ''.'' # ext = (pre' @ CHR ''/'' # body') @ CHR ''.'' # ext'"
    using assms by (simp add: generic_split_def)
  moreover have "CHR ''.'' \<notin> set ext" "CHR ''.'' \<notin> set ext'"
    using assms by (simp_all add: generic_split_def generic_ext_no_dot)
  ultimately show ?thesis
    by (rule last_occurrence_unique)
qed

lemma generic_split_length:
  assumes "generic_split p pre body ext" and "generic_split p pre' body' ext'"
  shows "length pre + length body = length pre' + length body'"
proof -
  have "length (pre @ CHR ''/'' # body) = length (pre' @ CHR ''/'' # body')"
    using generic_split_same_end [OF assms] by simp
  then show ?thesis by simp
qed

lemma generic_split_same_body:
  assumes "generic_split p pre body ext" and "generic_split p pre' body' ext'"
    and "length body = length body'"
  shows "body = body'"
proof -
  have "pre @ CHR ''/'' # body = pre' @ CHR ''/'' # body'"
    using generic_split_same_end [OF assms(1,2)] by simp
  then have "(pre @ [CHR ''/'']) @ body = (pre' @ [CHR ''/'']) @ body'"
    by simp
  moreover from assms(3)
  have "((pre @ [CHR ''/'']) @ body = (pre' @ [CHR ''/'']) @ body') =
        (pre @ [CHR ''/''] = pre' @ [CHR ''/''] \<and> body = body')"
    by (intro append_eq_append_conv) simp
  ultimately show ?thesis
    by simp
qed

text \<open>The search finds the leftmost index at which the pattern matches.\<close>

lemma match_at_None: "match_at ic r pre s = None \<longleftrightarrow> ms ic r (s, Map.empty) = []"
  by (simp add: match_at_def split: list.splits)

lemma match_at_Some:
  "match_at ic r pre s = Some m \<Longrightarrow>
     \<exists>st rest. ms ic r (s, Map.empty) = st # rest \<and> groups m = snd st"
  by (auto simp: match_at_def split: list.splits)

lemma search_None:
  "search ic r pre s = None \<longleftrightarrow> (\<forall>u v. s = u @ v \<longrightarrow> ms ic r (v, Map.empty) = [])"
proof (induction s arbitrary: pre)
  case Nil
  then show ?case by (simp add: match_at_None)
next
  case (Cons x xs)
  have "(\<forall>u v. x # xs = u @ v \<longrightarrow> ms ic r (v, Map.empty) = []) \<longleftrightarrow>
        ms ic r (x # xs, Map.empty) = [] \<and> (\<forall>u v. xs = u @ v \<longrightarrow> ms ic r (v, Map.empty) = [])"
    by (auto simp: Cons_eq_append_conv)
  moreover have "search ic r pre (x # xs) = None \<longleftrightarrow>
        match_at ic r pre (x # xs) = None \<and> search ic r (pre @ [x]) xs = None"
    by (simp split: option.splits)
  ultimately show ?case
    by (simp only: Cons.IH [of "pre @ [x]"] match_at_None)
qed

lemma search_Some:
  "search ic r pre s = Some m \<Longrightarrow>
     \<exists>u v st rest. s = u @ v \<and> ms ic r (v, Map.empty) = st # rest \<and> groups m = snd st \<and>
        (\<forall>u' v'. s = u' @ v' \<and> ms ic r (v', Map.empty) \<noteq> [] \<longrightarrow> length u \<le> length u')"
proof (induction s arbitrary: pre)
  case Nil
  then show ?case by (auto dest: match_at_Some)
next
  case (Cons x xs)
  show ?case
  proof (cases "match_at ic r pre (x # xs)")
    case (Some m')
    with Cons.prems have "match_at ic r pre (x # xs) = Some m" by simp
    then obtain st rest where "ms ic r (x # xs, Map.empty) = st # rest" "groups m = snd st"
      by (auto dest: match_at_Some)
    then have "x # xs = [] @ (x # xs) \<and> ms ic r (x # xs, Map.empty) = st # rest \<and> groups m = snd st \<and>
        (\<forall>u' v'. x # xs = u' @ v' \<and> ms ic r (v', Map.empty) \<noteq> [] \<longrightarrow> length ([]::string) \<le> length u')"
      by simp
    then show ?thesis by blast
  next
    case None
    with Cons.prems have "search ic r (pre @ [x]) xs = Some m" by simp
    from Cons.IH [OF this] obtain u v st rest where
      uv: "xs = u @ v" "ms ic r (v, Map.empty) = st # rest" "groups m = snd st"
      "\<forall>u' v'. xs = u' @ v' \<and> ms ic r (v', Map.empty) \<noteq> [] \<longrightarrow> length u \<le> length u'"
      by blast
    from None have here: "ms ic r (x # xs, Map.empty) = []"
      by (simp add: match_at_None)
    have "\<forall>u' v'. x # xs = u' @ v' \<and> ms ic r (v', Map.empty) \<noteq> [] \<longrightarrow> length (x # u) \<le> length u'"
      using uv(4) here by (auto simp: Cons_eq_append_conv)
    with uv(1-3) have "x # xs = (x # u) @ v \<and> ms ic r (v, Map.empty) = st # rest \<and> groups m = snd st \<and>
        (\<forall>u' v'. x # xs = u' @ v' \<and> ms ic r (v', Map.empty) \<noteq> [] \<longrightarrow> length (x # u) \<le> length u')"
      by simp
    then show ?thesis by blast
  qed
qed

lemma generic_here_iff:
  "ms True generic_re (v, Map.empty) \<noteq> [] \<longleftrightarrow> (\<exists>body ext. generic_split v [] body ext)"
proof -
  have "ms True generic_re (v, Map.empty) \<noteq> [] \<longleftrightarrow>
        (\<exists>s' cs'. (s', cs') \<in> set (ms True generic_re (v, Map.empty)))"
    by (cases "ms True generic_re (v, Map.empty)") auto
  then show ?thesis
    unfolding in_ms_generic by blast
qed

lemma generic_here_first:
  assumes "ms True generic_re (v, Map.empty) = st # rest"
  shows "\<exists>body ext. generic_split v [] body ext \<and> snd st 1 = Some body"
proof -
  have "(fst st, snd st) \<in> set (ms True generic_re (v, Map.empty))"
    using assms by simp
  then show ?thesis
    unfolding in_ms_generic by auto
qed

lemma resolveGeneric_None:
  "resolveGeneric p = None \<longleftrightarrow> \<not> (\<exists>pre body ext. generic_split p pre body ext)"
proof -
  have "resolveGeneric p = None \<longleftrightarrow> search True generic_re [] p = None"
    by (simp add: resolveGeneric_def str_match_def split: option.splits)
  also have "\<dots> \<longleftrightarrow> (\<forall>u v. p = u @ v \<longrightarrow> \<not> ms True generic_re (v, Map.empty) \<noteq> [])"
    by (simp add: search_None)
  also have "\<dots> \<longleftrightarrow> \<not> (\<exists>pre body ext. generic_split p pre body ext)"
    unfolding generic_here_iff
    by (meson generic_split_append generic_split_suffix)
  finally show ?thesis .
qed

lemma resolveGeneric_Some:
  assumes "resolveGeneric p = Some r"
  shows "\<exists>pre body ext. generic_split p pre body ext \<and>
           (\<forall>pre' body' ext'. generic_split p pre' body' ext' \<longrightarrow> length body' \<le> length body) \<and>
           r = \<lparr>urlPath = ''/'' @ body, confidence = Low, reasoning = ''Generic path extraction''\<rparr>"
proof -
  from assms obtain m where m: "search True generic_re [] p = Some m"
    and r: "r = \<lparr>urlPath = ''/'' @ group m 1, confidence = Low, reasoning = ''Generic path extraction''\<rparr>"
    by (auto simp: resolveGeneric_def str_match_def split: option.splits)
  from search_Some [OF m] obtain u v st rest where
    uv: "p = u @ v" "ms True generic_re (v, Map.empty) = st # rest" "groups m = snd st"
    and leftmost: "\<forall>u' v'. p = u' @ v' \<and> ms True generic_re (v', Map.empty) \<noteq> [] \<longrightarrow> length u \<le> length u'"
    by blast
  from generic_here_first [OF uv(2)] obtain body ext where
    v: "generic_split v [] body ext" "snd st 1 = Some body"
    by blast
  have split: "generic_split p u body ext"
    using uv(1) v(1) by (simp add: generic_split_append)
  have "group m 1 = body"
    using uv(3) v(2) by (simp add: group_def)
  with r have r': "r = \<lparr>urlPath = ''/'' @ body, confidence = Low, reasoning = ''Generic path extraction''\<rparr>"
    by (simp only:)
  have longest: "length body' \<le> length body" if other: "generic_split p pre' body' ext'" for pre' body' ext'
  proof -
    from generic_split_suffix [OF other] obtain v' where v': "p = pre' @ v'" "generic_split v' [] body' ext'"
      by blast
    then have "ms True generic_re (v', Map.empty) \<noteq> []"
      unfolding generic_here_iff by blast
    with v'(1) leftmost have "length u \<le> length pre'"
      by blast
    with generic_split_length [OF split other] show ?thesis
      by simp
  qed
  from split longest r' show ?thesis
    by blast
qed

text \<open>
  C7, as the source has it.  The generic fallback succeeds exactly on the paths that can
  be read as some text, a slash, a non-empty body, a dot and an extension, where the
  extension is \<^verbatim>\<open>html\<close>, \<^verbatim>\<open>htm\<close>, \<^verbatim>\<open>php\<close> or \<^verbatim>\<open>md\<close> in any mix of cases and the body
  consists of ASCII letters of either case, digits, hyphens, underscores and slashes.  It
  then returns a slash followed by the longest such body, with confidence low.  On every
  other path the result is absent.
\<close>

theorem resolveGeneric_characterisation:
  "(resolveGeneric p = None \<longleftrightarrow> \<not> (\<exists>pre body ext. generic_split p pre body ext)) \<and>
   (resolveGeneric p = Some r \<longleftrightarrow>
      (\<exists>pre body ext. generic_split p pre body ext \<and>
         (\<forall>pre' body' ext'. generic_split p pre' body' ext' \<longrightarrow> length body' \<le> length body) \<and>
         r = \<lparr>urlPath = ''/'' @ body, confidence = Low, reasoning = ''Generic path extraction''\<rparr>))"
proof (rule conjI)
  show "resolveGeneric p = None \<longleftrightarrow> \<not> (\<exists>pre body ext. generic_split p pre body ext)"
    by (rule resolveGeneric_None)
  show "resolveGeneric p = Some r \<longleftrightarrow>
      (\<exists>pre body ext. generic_split p pre body ext \<and>
         (\<forall>pre' body' ext'. generic_split p pre' body' ext' \<longrightarrow> length body' \<le> length body) \<and>
         r = \<lparr>urlPath = ''/'' @ body, confidence = Low, reasoning = ''Generic path extraction''\<rparr>)"
  proof (rule iffI)
  show "\<exists>pre body ext. generic_split p pre body ext \<and>
         (\<forall>pre' body' ext'. generic_split p pre' body' ext' \<longrightarrow> length body' \<le> length body) \<and>
         r = \<lparr>urlPath = ''/'' @ body, confidence = Low, reasoning = ''Generic path extraction''\<rparr>"
    if "resolveGeneric p = Some r"
    using that by (rule resolveGeneric_Some)
  show "resolveGeneric p = Some r"
    if "\<exists>pre body ext. generic_split p pre body ext \<and>
         (\<forall>pre' body' ext'. generic_split p pre' body' ext' \<longrightarrow> length body' \<le> length body) \<and>
         r = \<lparr>urlPath = ''/'' @ body, confidence = Low, reasoning = ''Generic path extraction''\<rparr>"
  proof -
    from that obtain pre body ext where
      split: "generic_split p pre body ext"
      and longest: "\<forall>pre' body' ext'. generic_split p pre' body' ext' \<longrightarrow> length body' \<le> length body"
      and r: "r = \<lparr>urlPath = ''/'' @ body, confidence = Low, reasoning = ''Generic path extraction''\<rparr>"
      by (elim exE conjE)
    from split have "\<exists>pre body ext. generic_split p pre body ext"
      by (intro exI)
    then have "resolveGeneric p \<noteq> None"
      unfolding resolveGeneric_None by simp
    then obtain r0 where r0: "resolveGeneric p = Some r0"
      by auto
    from resolveGeneric_Some [OF r0] obtain pre0 body0 ext0 where
      split0: "generic_split p pre0 body0 ext0"
      and longest0: "\<forall>pre' body' ext'. generic_split p pre' body' ext' \<longrightarrow> length body' \<le> length body0"
      and r0': "r0 = \<lparr>urlPath = ''/'' @ body0, confidence = Low, reasoning = ''Generic path extraction''\<rparr>"
      by (elim exE conjE)
    have "length body0 \<le> length body"
      using longest split0 by (elim allE impE)
    moreover have "length body \<le> length body0"
      using longest0 split by (elim allE impE)
    ultimately have "length body = length body0"
      by simp
    then have "body = body0"
      by (rule generic_split_same_body [OF split split0])
    with r r0 r0' show ?thesis
      by (simp only:)
  qed
  qed
qed

theorem resolveGeneric_characterisation_witness:
  "resolveGeneric ''/static/contact-us.html'' =
     Some \<lparr>urlPath = ''/static/contact-us'', confidence = Low, reasoning = ''Generic path extraction''\<rparr> \<and>
   (\<exists>pre body ext. generic_split ''/static/contact-us.html'' pre body ext \<and>
      ''/static/contact-us'' = ''/'' @ body)"
proof -
  have "resolveGeneric ''/static/contact-us.html'' =
     Some \<lparr>urlPath = ''/static/contact-us'', confidence = Low, reasoning = ''Generic path extraction''\<rparr>"
    by code_simp
  with resolveGeneric_characterisation [of "''/static/contact-us.html''"
      "\<lparr>urlPath = ''/static/contact-us'', confidence = Low, reasoning = ''Generic path extraction''\<rparr>"]
  show ?thesis by auto
qed

text \<open>
  C7, as the claim states it, fails for an upper-case letter in the captured part: the
  class is written \<^verbatim>\<open>a-z\<close>, but flag \<^verbatim>\<open>i\<close> applies to it as well, so
  \<^verbatim>\<open>/static/Contact-Us.html\<close> is not absent but resolves to \<^verbatim>\<open>/static/Contact-Us\<close>.
\<close>

theorem resolveGeneric_uppercase_counterexample:
  "resolveGeneric ''/static/Contact-Us.html'' =
     Some \<lparr>urlPath = ''/static/Contact-Us'', confidence = Low, reasoning = ''Generic path extraction''\<rparr> \<and>
   \<not> ascii_between CHR ''a'' CHR ''z'' CHR ''C''"
  by code_simp

section \<open>Properties of the cache\<close>

lemma map_of_delete_self: "map_of (AList.delete k al) k = None"
  by (simp add: AList.delete_conv')

text \<open>
  C8.  After \<^verbatim>\<open>set(k, v, ttl)\<close> the key has an entry, and with respect to that entry's
  \<^verbatim>\<open>expiresAt\<close>: at any time \<open>now \<le> expiresAt\<close>, \<^verbatim>\<open>get(k)\<close> returns \<open>v\<close>, \<^verbatim>\<open>has(k)\<close>
  returns true, and both leave the cache as it is; at any time \<open>now > expiresAt\<close>,
  \<^verbatim>\<open>get(k)\<close> returns \<^verbatim>\<open>null\<close>, \<^verbatim>\<open>has(k)\<close> returns false, and both leave the same cache,
  in which the key has no entry and every other key and the default TTL are as before.
  In that cache \<^verbatim>\<open>has(k)\<close> is false and \<^verbatim>\<open>get(k)\<close> is \<^verbatim>\<open>null\<close> at every time.
\<close>

theorem set_then_get:
  "\<exists>e. map_of (store (set_cache now0 k v ttl c)) k = Some e \<and>
       (\<forall>now. now \<le> expiresAt e \<longrightarrow>
          get now k (set_cache now0 k v ttl c) = (v, set_cache now0 k v ttl c) \<and>
          has now k (set_cache now0 k v ttl c) = (True, set_cache now0 k v ttl c)) \<and>
       (\<forall>now. expiresAt e < now \<longrightarrow>
          (\<exists>c'. get now k (set_cache now0 k v ttl c) = (JSNull, c') \<and>
                has now k (set_cache now0 k v ttl c) = (False, c') \<and>
                map_of (store c') k = None \<and>
                (\<forall>k'. k' \<noteq> k \<longrightarrow> map_of (store c') k' = map_of (store (set_cache now0 k v ttl c)) k') \<and>
                defaultTTL c' = defaultTTL c \<and>
                (\<forall>now'. has now' k c' = (False, c') \<and> get now' k c' = (JSNull, c'))))"
  by (simp add: set_cache_def Let_def get_def has_def AList.update_conv' AList.delete_conv')

theorem set_then_get_witness:
  "get 10000 ''k'' (set_cache 0 ''k'' (JSVal (7::nat)) (Some 10)
        \<lparr>store = [(''j'', \<lparr>entryValue = JSVal 1, expiresAt = 5\<rparr>)], defaultTTL = 300\<rparr>)
     = (JSVal 7, \<lparr>store = [(''j'', \<lparr>entryValue = JSVal 1, expiresAt = 5\<rparr>),
                            (''k'', \<lparr>entryValue = JSVal 7, expiresAt = 10000\<rparr>)], defaultTTL = 300\<rparr>) \<and>
   has 10000 ''k'' (set_cache 0 ''k'' (JSVal (7::nat)) (Some 10)
        \<lparr>store = [(''j'', \<lparr>entryValue = JSVal 1, expiresAt = 5\<rparr>)], defaultTTL = 300\<rparr>)
     = (True, \<lparr>store = [(''j'', \<lparr>entryValue = JSVal 1, expiresAt = 5\<rparr>),
                          (''k'', \<lparr>entryValue = JSVal 7, expiresAt = 10000\<rparr>)], defaultTTL = 300\<rparr>) \<and>
   get 10001 ''k'' (set_cache 0 ''k'' (JSVal (7::nat)) (Some 10)
        \<lparr>store = [(''j'', \<lparr>entryValue = JSVal 1, expiresAt = 5\<rparr>)], defaultTTL = 300\<rparr>)
     = (JSNull, \<lparr>store = [(''j'', \<lparr>entryValue = JSVal 1, expiresAt = 5\<rparr>)], defaultTTL = 300\<rparr>) \<and>
   has 10001 ''k'' (set_cache 0 ''k'' (JSVal (7::nat)) (Some 10)
        \<lparr>store = [(''j'', \<lparr>entryValue = JSVal 1, expiresAt = 5\<rparr>)], defaultTTL = 300\<rparr>)
     = (False, \<lparr>store = [(''j'', \<lparr>entryValue = JSVal 1, expiresAt = 5\<rparr>)], defaultTTL = 300\<rparr>) \<and>
   has 10002 ''k''
       (snd (get 10001 ''k'' (set_cache 0 ''k'' (JSVal (7::nat)) (Some 10)
          \<lparr>store = [(''j'', \<lparr>entryValue = JSVal 1, expiresAt = 5\<rparr>)], defaultTTL = 300\<rparr>)))
     = (False, \<lparr>store = [(''j'', \<lparr>entryValue = JSVal 1, expiresAt = 5\<rparr>)], defaultTTL = 300\<rparr>)"
  using set_then_get [of 0 "''k''" "JSVal (7::nat)" "Some 10"
      "\<lparr>store = [(''j'', \<lparr>entryValue = JSVal 1, expiresAt = 5\<rparr>)], defaultTTL = 300\<rparr>"]
  by (simp add: set_cache_def get_def has_def AList.delete_eq)

text \<open>
  C4, as the source has it.  \<^verbatim>\<open>set(key, value, ttlSeconds)\<close> leaves for the key exactly
  the entry with the given value and \<open>expiresAt = now + ttl * 1000\<close>, whatever was stored
  for the key before, and changes no other key; \<open>ttl\<close> is \<open>ttlSeconds\<close> when that is
  supplied and not zero, and the default TTL otherwise.
\<close>

theorem set_cache_entry:
  "map_of (store (set_cache now k v ttl c)) k =
     Some \<lparr>entryValue = v,
           expiresAt = now + (case ttl of None \<Rightarrow> defaultTTL c
                                 | Some t \<Rightarrow> if t = 0 then defaultTTL c else t) * 1000\<rparr> \<and>
   (\<forall>k'. k' \<noteq> k \<longrightarrow> map_of (store (set_cache now k v ttl c)) k' = map_of (store c) k') \<and>
   defaultTTL (set_cache now k v ttl c) = defaultTTL c"
  by (simp add: set_cache_def Let_def AList.update_conv' split: option.splits)

theorem set_cache_entry_witness:
  "map_of (store (set_cache 5000 ''k'' (JSVal True) (Some 0)
       \<lparr>store = [(''j'', \<lparr>entryValue = JSNull, expiresAt = 1\<rparr>),
                  (''k'', \<lparr>entryValue = JSNull, expiresAt = 9\<rparr>)], defaultTTL = 300\<rparr>)) ''k''
     = Some \<lparr>entryValue = JSVal True, expiresAt = 305000\<rparr> \<and>
   map_of (store (set_cache 5000 ''k'' (JSVal True) (Some 0)
       \<lparr>store = [(''j'', \<lparr>entryValue = JSNull, expiresAt = 1\<rparr>),
                  (''k'', \<lparr>entryValue = JSNull, expiresAt = 9\<rparr>)], defaultTTL = 300\<rparr>)) ''j''
     = Some \<lparr>entryValue = JSNull, expiresAt = 1\<rparr>"
  using set_cache_entry [of 5000 "''k''" "JSVal True" "Some 0"
       "\<lparr>store = [(''j'', \<lparr>entryValue = JSNull, expiresAt = 1\<rparr>),
                  (''k'', \<lparr>entryValue = JSNull, expiresAt = 9\<rparr>)], defaultTTL = 300\<rparr>"]
  by simp

text \<open>
  C4, as the claim states it, fails for a TTL of zero: with a default TTL of 300 seconds,
  \<^verbatim>\<open>set("k", true, 0)\<close> at time 5000 does not store \<open>expiresAt = 5000\<close>.
\<close>

theorem set_zero_ttl_counterexample:
  "map_of (store (set_cache 5000 ''k'' (JSVal True) (Some 0) \<lparr>store = [], defaultTTL = 300\<rparr>)) ''k''
     \<noteq> Some \<lparr>entryValue = JSVal True, expiresAt = 5000 + 0 * 1000\<rparr>"
  by (simp add: set_cache_def)

lemma Boolean_iff: "Boolean p \<longleftrightarrow> p \<noteq> PUndefined \<and> p \<noteq> PString [] \<and> p \<noteq> PNumber 0"
  by (cases p) auto

text \<open>
  C5, as the source has it.  \<^verbatim>\<open>generateKey\<close> joins with \<^verbatim>\<open>:\<close>, in their order, the parts
  that are neither absent, nor the empty string, nor the number zero; two part lists with
  the same such parts give the same key.
\<close>

theorem generateKey_truthy:
  "generateKey parts =
     join '':'' [p \<leftarrow> parts. p \<noteq> PUndefined \<and> p \<noteq> PString [] \<and> p \<noteq> PNumber 0] \<and>
   (\<forall>parts'. [p \<leftarrow> parts. p \<noteq> PUndefined \<and> p \<noteq> PString [] \<and> p \<noteq> PNumber 0]
                = [p \<leftarrow> parts'. p \<noteq> PUndefined \<and> p \<noteq> PString [] \<and> p \<noteq> PNumber 0]
              \<longrightarrow> generateKey parts' = generateKey parts)"
  by (simp add: generateKey_def Boolean_iff [abs_def])

theorem generateKey_truthy_witness:
  "generateKey [PString ''site'', PUndefined, PNumber 42, PString [], PNumber 0, PString ''meta'']
     = ''site:42:meta''"
  using generateKey_truthy
    [of "[PString ''site'', PUndefined, PNumber 42, PString [], PNumber 0, PString ''meta'']"]
  by (simp add: number_to_string_def)

text \<open>
  C5, as the claim states it, fails for the numeric part 0: it is dropped, so the key of
  \<^verbatim>\<open>("page", 0)\<close> is not \<^verbatim>\<open>page:0\<close> but the key of \<^verbatim>\<open>("page")\<close>.
\<close>

theorem generateKey_zero_counterexample:
  "generateKey [PString ''page'', PNumber 0] \<noteq> ''page:0'' \<and>
   generateKey [PString ''page'', PNumber 0] = generateKey [PString ''page'']"
  by (simp add: generateKey_def)

lemma delete_loop_eq:
  "delete_loop test ks (d, st) =
     (d + length (filter test ks), filter (\<lambda>p. \<not> (fst p \<in> set ks \<and> test (fst p))) st)"
proof (induction ks arbitrary: d st)
  case Nil
  then show ?case by simp
next
  case (Cons k ks)
  have "filter (\<lambda>p. \<not> (fst p \<in> set ks \<and> test (fst p))) (AList.delete k st)
        = filter (\<lambda>p. \<not> ((fst p = k \<or> fst p \<in> set ks) \<and> test (fst p))) st" if "test k"
    using that by (induction st) (auto simp: AList.delete_eq)
  moreover have "filter (\<lambda>p. \<not> (fst p \<in> set ks \<and> test (fst p))) st
        = filter (\<lambda>p. \<not> ((fst p = k \<or> fst p \<in> set ks) \<and> test (fst p))) st" if "\<not> test k"
    using that by (induction st) auto
  ultimately show ?case
    using Cons.IH by simp
qed

lemma map_of_filter_keys:
  "map_of (filter (\<lambda>p. \<not> test (fst p)) al) k = (if test k then None else map_of al k)"
  by (induction al) auto

text \<open>
  C2.  For a pattern that the constructor accepts, \<^verbatim>\<open>deletePattern\<close> removes exactly the
  keys that the pattern's \<^verbatim>\<open>test\<close> accepts (the whole key is the string tested), keeps
  every other entry as it is and in its place, and returns the number of keys removed.
  The keys of a \<^verbatim>\<open>Map\<close> are distinct.
\<close>

theorem deletePattern_removes_matching:
  assumes "RegExp pattern = Inr test" and "distinct (map fst (store c))"
  shows "\<exists>n c'. deletePattern RegExp pattern c = Inr (n, c') \<and>
           store c' = filter (\<lambda>p. \<not> test (fst p)) (store c) \<and>
           (\<forall>k. map_of (store c') k = (if test k then None else map_of (store c) k)) \<and>
           n = card {k \<in> dom (map_of (store c)). test k} \<and>
           defaultTTL c' = defaultTTL c"
proof -
  let ?st = "filter (\<lambda>p. \<not> test (fst p)) (store c)"
  have loop: "delete_loop test (map fst (store c)) (0, store c)
                = (length (filter test (map fst (store c))), ?st)"
    by (simp add: delete_loop_eq cong: filter_cong)
  have lookup: "map_of ?st k = (if test k then None else map_of (store c) k)" for k
    by (rule map_of_filter_keys)
  have "{k \<in> dom (map_of (store c)). test k} = set (filter test (map fst (store c)))"
    by (auto simp: dom_map_of_conv_image_fst)
  moreover have "card (set (filter test (map fst (store c)))) = length (filter test (map fst (store c)))"
    using assms(2) by (intro distinct_card distinct_filter)
  ultimately have "card {k \<in> dom (map_of (store c)). test k} = length (filter test (map fst (store c)))"
    by (simp only:)
  with loop lookup assms(1) show ?thesis
    by (simp add: deletePattern_def)
qed

theorem deletePattern_removes_matching_witness:
  "deletePattern
     (\<lambda>p. if p = ''^session:'' then Inr (\<lambda>k. starts_with k ''session:'') else Inl ''SyntaxError'')
     ''^session:''
     \<lparr>store = [(''session:1'', \<lparr>entryValue = JSVal (1::nat), expiresAt = 10\<rparr>),
                (''user:session:2'', \<lparr>entryValue = JSVal 2, expiresAt = 20\<rparr>),
                (''session:3'', \<lparr>entryValue = JSNull, expiresAt = 30\<rparr>)], defaultTTL = 300\<rparr>
   = Inr (2, \<lparr>store = [(''user:session:2'', \<lparr>entryValue = JSVal 2, expiresAt = 20\<rparr>)],
               defaultTTL = 300\<rparr>)"
  using deletePattern_removes_matching
    [of "\<lambda>p. if p = ''^session:'' then Inr (\<lambda>k. starts_with k ''session:'') else Inl ''SyntaxError''"
        "''^session:''" "\<lambda>k. starts_with k ''session:''"
        "\<lparr>store = [(''session:1'', \<lparr>entryValue = JSVal (1::nat), expiresAt = 10\<rparr>),
                (''user:session:2'', \<lparr>entryValue = JSVal 2, expiresAt = 20\<rparr>),
                (''session:3'', \<lparr>entryValue = JSNull, expiresAt = 30\<rparr>)], defaultTTL = 300\<rparr>"]
  by (simp add: deletePattern_def AList.delete_eq)

lemma begin_all_absent:
  "map_of (store c) k = None \<Longrightarrow>
   begin_all nows k factory (c, w) =
     (map Inr (fst (invoke_times (length nows) factory w)), c,
      snd (invoke_times (length nows) factory w))"
  by (induction nows arbitrary: w)
     (simp_all add: getOrSet_begin_def get_def split_beta)

lemma length_invoke_times: "length (fst (invoke_times n factory w)) = n"
  by (induction n arbitrary: w) (simp_all add: split_beta)

lemma getOrSet_resume_eq:
  "getOrSet_resume t k outcome ttl c =
     (outcome, case outcome of Inl err \<Rightarrow> c | Inr v \<Rightarrow> set_cache t k v ttl c)"
  by (cases outcome) (simp_all add: getOrSet_resume_def)

lemma resume_all_settle_order:
  "\<forall>i \<in> set (map fst schedule). i < length ps \<Longrightarrow>
   resume_all schedule (map Inr ps) k ttl c =
     (map (\<lambda>(i, t). (i, ps ! i)) schedule,
      foldl (\<lambda>c' (i, t). case ps ! i of Inl err \<Rightarrow> c' | Inr v \<Rightarrow> set_cache t k v ttl c') c schedule)"
proof (induction schedule arbitrary: c)
  case Nil
  then show ?case by simp
next
  case (Cons p schedule)
  obtain i t where p: "p = (i, t)" by (cases p)
  with Cons.prems have i: "i < length ps" and rest: "\<forall>i \<in> set (map fst schedule). i < length ps"
    by simp_all
  show ?case
    by (simp add: p i Cons.IH [OF rest] getOrSet_resume_eq)
qed

lemma settle_fold_frame:
  "defaultTTL (foldl (\<lambda>c' (i, t). case ps ! i of Inl err \<Rightarrow> c' | Inr v \<Rightarrow> set_cache t k v ttl c') c schedule)
     = defaultTTL c \<and>
   (k' \<noteq> k \<longrightarrow>
      map_of (store (foldl (\<lambda>c' (i, t). case ps ! i of Inl err \<Rightarrow> c' | Inr v \<Rightarrow> set_cache t k v ttl c') c schedule)) k'
        = map_of (store c) k')"
proof (induction schedule arbitrary: c)
  case Nil
  then show ?case by simp
next
  case (Cons p schedule)
  obtain i t where p: "p = (i, t)" by (cases p)
  show ?case
    by (cases "ps ! i") (simp_all add: p Cons.IH set_cache_def Let_def AList.update_conv')
qed

text \<open>
  C3, as the source has it.  \<^verbatim>\<open>getOrSet\<close> keeps no record of a computation in flight.
  When the key has no entry and \<open>N\<close> callers run their first segment before any promise
  has settled, the factory is called \<open>N\<close> times, once by each caller, and each caller
  receives the outcome of its own call.  Each value is stored when its promise settles,
  a rejection stores nothing: the cache left is the one obtained by the stores in the
  order of settling, so the entry of the key is that of the last promise to settle if
  that one settled with a value; no other key and not the default TTL is changed.  A
  schedule names each caller at most once.
\<close>

theorem getOrSet_concurrent_invocations:
  assumes "map_of (store c) k = None"
    and "distinct (map fst schedule)"
    and "\<forall>i \<in> set (map fst schedule). i < length begins"
  shows "\<exists>outcomes c'.
           invoke_times (length begins) factory w = (outcomes, snd (invoke_times (length begins) factory w)) \<and>
           concurrent_getOrSet begins schedule k factory ttl (c, w) =
             (map (\<lambda>(i, t). (i, outcomes ! i)) schedule, c',
              snd (invoke_times (length begins) factory w)) \<and>
           c' = foldl (\<lambda>c1 (i, t). case outcomes ! i of Inl err \<Rightarrow> c1 | Inr v \<Rightarrow> set_cache t k v ttl c1)
                  c schedule \<and>
           defaultTTL c' = defaultTTL c \<and>
           (\<forall>k'. k' \<noteq> k \<longrightarrow> map_of (store c') k' = map_of (store c) k') \<and>
           (\<forall>earlier i t v. schedule = earlier @ [(i, t)] \<and> outcomes ! i = Inr v \<longrightarrow>
              map_of (store c') k =
                Some \<lparr>entryValue = v,
                      expiresAt = t + (case ttl of None \<Rightarrow> defaultTTL c
                                       | Some s \<Rightarrow> if s = 0 then defaultTTL c else s) * 1000\<rparr>)"
proof -
  let ?outcomes = "fst (invoke_times (length begins) factory w)"
  let ?step = "\<lambda>c1 (i, t). case ?outcomes ! i of Inl err \<Rightarrow> c1 | Inr v \<Rightarrow> set_cache t k v ttl c1"
  let ?c' = "foldl ?step c schedule"
  have range: "\<forall>i \<in> set (map fst schedule). i < length ?outcomes"
    using assms(3) by (simp add: length_invoke_times)
  have run: "concurrent_getOrSet begins schedule k factory ttl (c, w) =
               (map (\<lambda>(i, t). (i, ?outcomes ! i)) schedule, ?c', snd (invoke_times (length begins) factory w))"
    by (simp add: concurrent_getOrSet_def begin_all_absent [OF assms(1)] resume_all_settle_order [OF range])
  have frame: "defaultTTL ?c' = defaultTTL c" "\<And>k'. k' \<noteq> k \<Longrightarrow> map_of (store ?c') k' = map_of (store c) k'"
    using settle_fold_frame [where ps = ?outcomes and k = k and ttl = ttl and c = c and schedule = schedule]
    by simp_all
  have last: "map_of (store ?c') k =
                Some \<lparr>entryValue = v,
                      expiresAt = t + (case ttl of None \<Rightarrow> defaultTTL c
                                       | Some s \<Rightarrow> if s = 0 then defaultTTL c else s) * 1000\<rparr>"
    if "schedule = earlier @ [(i, t)]" "?outcomes ! i = Inr v" for earlier i t v
  proof -
    have "defaultTTL (foldl ?step c earlier) = defaultTTL c"
      using settle_fold_frame [where ps = ?outcomes and k = k and ttl = ttl and c = c and schedule = earlier]
      by simp
    with that show ?thesis
      by (simp add: set_cache_def Let_def AList.update_conv' split: option.splits)
  qed
  from run frame last show ?thesis
    by (intro exI [of _ ?outcomes] exI [of _ ?c']) (simp add: surjective_pairing [symmetric])
qed

theorem getOrSet_concurrent_invocations_witness:
  "concurrent_getOrSet [1, 2] [(1, 10), (0, 11)] ''k''
     (\<lambda>n::nat. (Inr (JSVal n) :: unit + nat jsvalue, Suc n)) None
     (\<lparr>store = [], defaultTTL = 300\<rparr>, 0)
   = ([(1, Inr (JSVal 1)), (0, Inr (JSVal 0))],
      \<lparr>store = [(''k'', \<lparr>entryValue = JSVal 0, expiresAt = 300011\<rparr>)], defaultTTL = 300\<rparr>, 2)"
  using getOrSet_concurrent_invocations [of "\<lparr>store = [], defaultTTL = 300\<rparr>" "''k''"
     "[(1, 10), (0, 11)]" "[1, 2]" "\<lambda>n::nat. (Inr (JSVal n) :: unit + nat jsvalue, Suc n)" 0 None]
  by (simp add: set_cache_def)

text \<open>
  C3, as the claim states it, fails: with a factory that counts its calls and returns the
  count, two callers for an absent key leave the count at 2, not 1, and receive the
  different values 0 and 1.
\<close>

theorem getOrSet_single_flight_counterexample:
  "concurrent_getOrSet [1, 2] [(0, 10), (1, 11)] ''k''
     (\<lambda>n::nat. (Inr (JSVal n) :: unit + nat jsvalue, Suc n)) None
     (\<lparr>store = [], defaultTTL = 300\<rparr>, 0)
   = ([(0, Inr (JSVal 0)), (1, Inr (JSVal 1))],
      \<lparr>store = [(''k'', \<lparr>entryValue = JSVal 1, expiresAt = 300011\<rparr>)], defaultTTL = 300\<rparr>, 2)"
  by (simp add: concurrent_getOrSet_def getOrSet_begin_def getOrSet_resume_def get_def set_cache_def)

text \<open>
  C9.  When the key has no live entry (none, or one that has expired) and the factory
  fails, \<^verbatim>\<open>getOrSet\<close> fails with the factory's error and stores nothing: afterwards the
  key has no entry, every other key is as before, and a cache that had no entry for the
  key is unchanged.  A later \<^verbatim>\<open>getOrSet\<close> for the key whose factory succeeds calls that
  factory, stores its value and returns it.
\<close>

theorem getOrSet_failure_not_cached:
  assumes "\<forall>e. map_of (store c) k = Some e \<longrightarrow> expiresAt e < now"
    and "factory w = (Inl err, w')"
  shows "\<exists>c'. getOrSet now now1 k factory ttl (c, w) = (Inl err, c', w') \<and>
              map_of (store c') k = None \<and>
              (\<forall>k'. k' \<noteq> k \<longrightarrow> map_of (store c') k' = map_of (store c) k') \<and>
              (map_of (store c) k = None \<longrightarrow> c' = c) \<and>
              (\<forall>t t1 factory2 ttl2 v w''. factory2 w' = (Inr v, w'') \<longrightarrow>
                 getOrSet t t1 k factory2 ttl2 (c', w') = (Inr v, set_cache t1 k v ttl2 c', w''))"
  using assms
  by (cases "map_of (store c) k")
     (auto simp: getOrSet_def getOrSet_begin_def getOrSet_resume_def get_def AList.delete_conv')

theorem getOrSet_failure_not_cached_witness:
  "getOrSet 100 110 ''k'' (\<lambda>n::nat. (Inl ''boom'' :: string + nat jsvalue, Suc n)) None
     (\<lparr>store = [], defaultTTL = 300\<rparr>, 0)
     = (Inl ''boom'', \<lparr>store = [], defaultTTL = 300\<rparr>, 1) \<and>
   getOrSet 200 210 ''k'' (\<lambda>n::nat. (Inr (JSVal n) :: string + nat jsvalue, Suc n)) None
     (\<lparr>store = [], defaultTTL = 300\<rparr>, 1)
     = (Inr (JSVal 1), \<lparr>store = [(''k'', \<lparr>entryValue = JSVal 1, expiresAt = 300210\<rparr>)],
                          defaultTTL = 300\<rparr>, 2)"
  using getOrSet_failure_not_cached [of "\<lparr>store = [], defaultTTL = 300\<rparr>" "''k''" 100
     "\<lambda>n::nat. (Inl ''boom'' :: string + nat jsvalue, Suc n)" 0 "''boom''" 1 110 None]
  by (simp add: getOrSet_def getOrSet_begin_def getOrSet_resume_def get_def set_cache_def)

text \<open>
  C10.  When the key's unexpired entry holds \<^verbatim>\<open>null\<close>, \<^verbatim>\<open>get\<close> returns \<^verbatim>\<open>null\<close>, which is
  also its answer when the key has no entry, and \<^verbatim>\<open>getOrSet\<close> calls the factory as on a
  miss: a rejection is passed on, a value is returned and overwrites the entry.
\<close>

theorem getOrSet_null_never_memoized:
  assumes "map_of (store c) k = Some e" and "entryValue e = JSNull" and "now \<le> expiresAt e"
  shows "get now k c = (JSNull, c) \<and>
         fst (get now k c) = fst (get now k (c\<lparr>store := AList.delete k (store c)\<rparr>)) \<and>
         getOrSet now now1 k factory ttl (c, w) =
           (case factory w of
              (Inl err, w') \<Rightarrow> (Inl err, c, w')
            | (Inr v, w') \<Rightarrow> (Inr v, set_cache now1 k v ttl c, w')) \<and>
         (\<forall>v w'. factory w = (Inr v, w') \<longrightarrow>
            map_of (store (fst (snd (getOrSet now now1 k factory ttl (c, w))))) k
              = Some \<lparr>entryValue = v,
                      expiresAt = now1 + (case ttl of None \<Rightarrow> defaultTTL c
                                           | Some t \<Rightarrow> if t = 0 then defaultTTL c else t) * 1000\<rparr>)"
  using assms
  by (auto simp: getOrSet_def getOrSet_begin_def getOrSet_resume_def get_def AList.delete_conv'
        set_cache_def AList.update_conv' split: prod.splits sum.splits option.splits)

theorem getOrSet_null_never_memoized_witness:
  "get 100 ''k'' \<lparr>store = [(''k'', \<lparr>entryValue = JSNull :: nat jsvalue, expiresAt = 500\<rparr>)],
                   defaultTTL = 300\<rparr>
     = (JSNull, \<lparr>store = [(''k'', \<lparr>entryValue = JSNull, expiresAt = 500\<rparr>)], defaultTTL = 300\<rparr>) \<and>
   getOrSet 100 110 ''k'' (\<lambda>n::nat. (Inr JSNull :: string + nat jsvalue, Suc n)) None
     (\<lparr>store = [(''k'', \<lparr>entryValue = JSNull, expiresAt = 500\<rparr>)], defaultTTL = 300\<rparr>, 4)
     = (Inr JSNull, \<lparr>store = [(''k'', \<lparr>entryValue = JSNull, expiresAt = 300110\<rparr>)],
                       defaultTTL = 300\<rparr>, 5)"
  using getOrSet_null_never_memoized
    [of "\<lparr>store = [(''k'', \<lparr>entryValue = JSNull :: nat jsvalue, expiresAt = 500\<rparr>)], defaultTTL = 300\<rparr>"
        "''k''" "\<lparr>entryValue = JSNull, expiresAt = 500\<rparr>" 100 110
        "\<lambda>n::nat. (Inr JSNull :: string + nat jsvalue, Suc n)" None 4]
  by (simp add: set_cache_def)

end
